theory Spec2Isabelle
  imports Main "HOL-Library.Word" "HOL-Library.Multiset"
begin

unbundle bit_operations_syntax

section \<open>The object graph of hb-repacker.hh\<close>

text \<open>
  The repacker works on the packed object stack of the serializer. The header
  \<^verbatim>\<open>hb-repacker.hh\<close> is the only file under verification; the types it takes from
  \<^verbatim>\<open>hb-serialize.hh\<close>, \<^verbatim>\<open>hb-map.hh\<close>, \<^verbatim>\<open>hb-set.hh\<close> and \<^verbatim>\<open>hb-vector.hh\<close> are
  embedded by the part of their behaviour that the header relies on.

  Machine integers: \<^verbatim>\<open>unsigned\<close> and \<^verbatim>\<open>int\<close> are \<^typ>\<open>32 word\<close>, \<^verbatim>\<open>int64_t\<close>,
  \<^verbatim>\<open>size_t\<close>, pointers and pointer differences are \<^typ>\<open>64 word\<close>. Arithmetic wraps;
  a signed reading is \<^term>\<open>sint\<close>, signed comparison is \<open><=s\<close> and \<open><s\<close>, a widening
  conversion from unsigned is \<^term>\<open>ucast\<close> and from signed is \<^term>\<open>scast\<close>.
\<close>

subsection \<open>Links and objects\<close>

text \<open>
  Modelled from the spec: \<^verbatim>\<open>hb_serialize_context_t::whence_t\<close> and
  \<^verbatim>\<open>hb_serialize_context_t::object_t::link_t\<close> (declared in hb-serialize.hh). The spec
  lists the anchor as one of Head, Tail, Absolute, and the link attributes child,
  position, width, signedness, anchor and bias; the field names are the ones the code
  of hb-repacker.hh reads.
\<close>

datatype whence_t = Head | Tail | Absolute

record link_t =
  is_wide :: bool
  is_signed :: bool
  whence :: whence_t
  position :: "32 word"
  bias :: "32 word"
  objidx :: "32 word"

text \<open>
  Modelled from the spec: \<^verbatim>\<open>hb_serialize_context_t::object_t\<close>. The payload is the
  byte range between the two anchors \<open>head\<close> and \<open>tail\<close> (addresses in the caller's
  memory); \<open>links\<close> is the vector of outbound links.
\<close>

record object_t =
  head :: "64 word"
  tail :: "64 word"
  links :: "link_t list"

record graph_t =
  objects :: "object_t list"

text \<open>
  The failures of the code. Every \<^verbatim>\<open>assert\<close> of the header aborts the repack; the
  assertions about unsorted, unmapped or unreachable objects are the spec's
  \<open>GraphStructureError\<close>, the assertion of \<^verbatim>\<open>compute_offset\<close> is the spec's
  \<open>OffsetUnderflow\<close>. \<open>NullObject\<close> stands for the dereference of a null entry of the
  input vector at an index other than 0.
\<close>

datatype error = GraphStructureError | OffsetUnderflow | NullObject

subsection \<open>Vectors, maps and sets of the library\<close>

text \<open>
  Modelled from the spec: \<^verbatim>\<open>hb_vector_t::operator[]\<close> (hb-vector.hh). An index out of
  range does not fail: it yields a null element, which for an object is the empty
  object without links.
\<close>

definition null_object :: object_t where
  "null_object = \<lparr>head = 0, tail = 0, links = []\<rparr>"

definition vec_get :: "object_t list \<Rightarrow> 32 word \<Rightarrow> object_t" where
  "vec_get v i = (if unat i < length v then v ! unat i else null_object)"

text \<open>
  Modelled from the spec: \<^verbatim>\<open>hb_map_t\<close> (hb-map.hh), the spec's \<open>map<index, count>\<close>.
  Keys and values are \<^verbatim>\<open>unsigned\<close> 32-bit numbers and the all-ones value is the
  sentinel \<open>INVALID\<close>: \<open>get\<close> of an absent key returns it, \<open>set\<close> of the sentinel
  key does nothing, storing the sentinel value is deletion, and \<open>has\<close> compares the
  stored value with the sentinel. A map is therefore its \<open>get\<close> function.
\<close>

type_synonym hb_map_t = "32 word \<Rightarrow> 32 word"

definition INVALID :: "32 word" where
  "INVALID = - 1"

definition hb_map_empty :: hb_map_t where
  "hb_map_empty = (\<lambda>k. INVALID)"

definition hb_map_get :: "hb_map_t \<Rightarrow> 32 word \<Rightarrow> 32 word" where
  "hb_map_get m k = m k"

definition hb_map_set :: "hb_map_t \<Rightarrow> 32 word \<Rightarrow> 32 word \<Rightarrow> hb_map_t" where
  "hb_map_set m k v = (if k = INVALID then m else m(k := v))"

definition hb_map_has :: "hb_map_t \<Rightarrow> 32 word \<Rightarrow> bool" where
  "hb_map_has m k = (hb_map_get m k \<noteq> INVALID)"

section \<open>The overflow oracle\<close>

text \<open>
  \<^verbatim>\<open>compute_offset\<close>: the two positions are \<^verbatim>\<open>unsigned\<close> values read from the maps,
  so their difference is taken in 32 bits and only then stored in the 64-bit
  \<open>offset\<close>. The assertion compares the 64-bit offset with the widened bias.
\<close>

definition compute_offset ::
  "32 word \<Rightarrow> link_t \<Rightarrow> hb_map_t \<Rightarrow> hb_map_t \<Rightarrow> error + 64 word" where
  "compute_offset parent_idx link start_positions end_positions =
     (let child_idx = objidx link;
          offset = (case whence link of
              Head \<Rightarrow> ucast (hb_map_get start_positions child_idx
                               - hb_map_get start_positions parent_idx)
            | Tail \<Rightarrow> ucast (hb_map_get start_positions child_idx
                               - hb_map_get end_positions parent_idx)
            | Absolute \<Rightarrow> ucast (hb_map_get start_positions child_idx))
      in if \<not> (ucast (bias link) <=s offset) then Inl OffsetUnderflow
         else Inr (offset - ucast (bias link)))"

text \<open>
  \<^verbatim>\<open>is_valid_offset\<close>: the narrow bounds \<^verbatim>\<open>1 << 15\<close> and \<^verbatim>\<open>1 << 16\<close> are \<^verbatim>\<open>int\<close>
  constants, sign-extended for the comparison with the \<^verbatim>\<open>int64_t\<close> offset; the wide
  bounds are shifted in 64 bits.
\<close>

definition is_valid_offset :: "64 word \<Rightarrow> link_t \<Rightarrow> bool" where
  "is_valid_offset offset link =
     (if is_signed link then
        (if is_wide link
         then - (push_bit 31 (1 :: 64 word)) <=s offset \<and> offset <s push_bit 31 (1 :: 64 word)
         else scast (- (push_bit 15 (1 :: 32 word))) <=s offset
              \<and> offset <s scast (push_bit 15 (1 :: 32 word)))
      else
        (if is_wide link
         then 0 <=s offset \<and> offset <s push_bit 32 (1 :: 64 word)
         else 0 <=s offset \<and> offset <s scast (push_bit 16 (1 :: 32 word))))"

text \<open>
  The first loop of \<^verbatim>\<open>will_overflow\<close> walks the indices from the last object down
  to 0 and records where each object starts and ends in the output. \<open>current_pos\<close> is
  \<^verbatim>\<open>unsigned\<close>: the 64-bit size is added and the sum cut back to 32 bits.
\<close>

fun positions ::
  "object_t list \<Rightarrow> nat list \<Rightarrow> hb_map_t \<times> hb_map_t \<times> 32 word \<Rightarrow> hb_map_t \<times> hb_map_t \<times> 32 word"
  where
  "positions objs [] acc = acc"
| "positions objs (i # idxs) (start_positions, end_positions, current_pos) =
     (let start_positions' = hb_map_set start_positions (of_nat i) current_pos;
          current_pos' = ucast ((ucast current_pos :: 64 word)
                                + (tail (objs ! i) - head (objs ! i)));
          end_positions' = hb_map_set end_positions (of_nat i) current_pos'
      in positions objs idxs (start_positions', end_positions', current_pos'))"

text \<open>
  The inner loop over the links of one parent: \<open>Inr True\<close> is the early
  \<^verbatim>\<open>return true\<close>, \<open>Inr False\<close> means that the loop ran to its end.
\<close>

fun overflow_in_links ::
  "32 word \<Rightarrow> link_t list \<Rightarrow> hb_map_t \<Rightarrow> hb_map_t \<Rightarrow> error + bool" where
  "overflow_in_links parent_idx [] sp ep = Inr False"
| "overflow_in_links parent_idx (link # rest) sp ep =
     (case compute_offset parent_idx link sp ep of
        Inl e \<Rightarrow> Inl e
      | Inr offset \<Rightarrow>
          if \<not> is_valid_offset offset link then Inr True
          else overflow_in_links parent_idx rest sp ep)"

fun overflow_in_objects ::
  "object_t list \<Rightarrow> nat list \<Rightarrow> hb_map_t \<Rightarrow> hb_map_t \<Rightarrow> error + bool" where
  "overflow_in_objects objs [] sp ep = Inr False"
| "overflow_in_objects objs (parent_idx # idxs) sp ep =
     (case overflow_in_links (of_nat parent_idx) (links (objs ! parent_idx)) sp ep of
        Inl e \<Rightarrow> Inl e
      | Inr True \<Rightarrow> Inr True
      | Inr False \<Rightarrow> overflow_in_objects objs idxs sp ep)"

text \<open>
  \<^verbatim>\<open>will_overflow\<close> is a member function of the graph: it is given the graph and
  returns its answer together with the graph it leaves behind.
\<close>

definition will_overflow :: "graph_t \<Rightarrow> error + (bool \<times> graph_t)" where
  "will_overflow g =
     (let n = length (objects g);
          (start_positions, end_positions, current_pos) =
             positions (objects g) (rev [0..<n]) (hb_map_empty, hb_map_empty, 0)
      in case overflow_in_objects (objects g) [0..<n] start_positions end_positions of
           Inl e \<Rightarrow> Inl e
         | Inr b \<Rightarrow> Inr (b, g))"

section \<open>Construction from the packed object list\<close>

text \<open>
  The constructor takes the vector of object pointers of the serializer; a null
  pointer is \<open>None\<close>. A null entry at index 0 is the nil object and is dropped; from
  then on every copied link has its \<open>objidx\<close> decremented (an \<^verbatim>\<open>unsigned\<close>
  decrement, which wraps at 0). The constructor checks nothing else. A null entry at
  any other index is dereferenced by the code; the embedding reports it as
  \<open>NullObject\<close>.
\<close>

definition fix_indices :: "object_t \<Rightarrow> object_t" where
  "fix_indices obj = obj\<lparr>links := map (\<lambda>l. l\<lparr>objidx := objidx l - 1\<rparr>) (links obj)\<rparr>"

fun graph_t_loop ::
  "object_t option list \<Rightarrow> nat \<Rightarrow> bool \<Rightarrow> object_t list \<Rightarrow> error + object_t list" where
  "graph_t_loop [] i removed_nil objs = Inr objs"
| "graph_t_loop (entry # rest) i removed_nil objs =
     (if i = 0 \<and> entry = None then graph_t_loop rest (i + 1) True objs
      else case entry of
             None \<Rightarrow> Inl NullObject
           | Some obj \<Rightarrow>
               graph_t_loop rest (i + 1) removed_nil
                 (objs @ [if removed_nil then fix_indices obj else obj]))"

definition graph_t_new :: "object_t option list \<Rightarrow> error + graph_t" where
  "graph_t_new packed =
     (case graph_t_loop packed 0 False [] of
        Inl e \<Rightarrow> Inl e
      | Inr objs \<Rightarrow> Inr \<lparr>objects = objs\<rparr>)"

section \<open>Re-emission into the serializer\<close>

text \<open>
  Modelled from the spec: the serialization sink \<^verbatim>\<open>hb_serialize_context_t\<close>
  (hb-serialize.hh) with the operations of the spec's section 6: begin, push_object,
  allocate_bytes, register_link, pop_object and end. The sink holds the object frames
  that are open, the objects packed so far and the room left in its buffer. An object
  of the sink is its bytes and the links registered on it; a registered link is a
  \<open>link_t\<close> whose position is relative to the start of the object. Allocation
  hands out zero bytes and fails (a null pointer) when the room does not suffice.
\<close>

record packed_t =
  bytes :: "8 word list"
  plinks :: "link_t list"

record hb_serialize_context_t =
  room :: nat
  current :: "packed_t list"
  packed :: "packed_t list"
  ended :: bool

definition start_serialize :: "hb_serialize_context_t \<Rightarrow> hb_serialize_context_t" where
  "start_serialize c = c\<lparr>current := [], packed := [], ended := False\<rparr>"

definition push :: "hb_serialize_context_t \<Rightarrow> hb_serialize_context_t" where
  "push c = c\<lparr>current := \<lparr>bytes = [], plinks = []\<rparr> # current c\<rparr>"

definition on_top :: "(packed_t \<Rightarrow> packed_t) \<Rightarrow> hb_serialize_context_t \<Rightarrow> hb_serialize_context_t" where
  "on_top f c = (case current c of [] \<Rightarrow> c | t # below \<Rightarrow> c\<lparr>current := f t # below\<rparr>)"

definition allocate_size ::
  "hb_serialize_context_t \<Rightarrow> 64 word \<Rightarrow> (nat \<times> hb_serialize_context_t) option" where
  "allocate_size c sz =
     (if room c < unat sz then None
      else case current c of
             [] \<Rightarrow> None
           | t # below \<Rightarrow>
               Some (length (bytes t),
                     on_top (\<lambda>t. t\<lparr>bytes := bytes t @ replicate (unat sz) 0\<rparr>)
                       (c\<lparr>room := room c - unat sz\<rparr>)))"

definition add_link ::
  "hb_serialize_context_t \<Rightarrow> nat \<Rightarrow> bool \<Rightarrow> bool \<Rightarrow> 32 word \<Rightarrow> whence_t \<Rightarrow> 32 word
     \<Rightarrow> hb_serialize_context_t" where
  "add_link c at wide sg idx wh b =
     on_top (\<lambda>t. t\<lparr>plinks := plinks t @
        [\<lparr>is_wide = wide, is_signed = sg, whence = wh, position = of_nat at,
          bias = b, objidx = idx\<rparr>]\<rparr>) c"

definition pop_pack :: "hb_serialize_context_t \<Rightarrow> bool \<Rightarrow> hb_serialize_context_t" where
  "pop_pack c share =
     (case current c of
        [] \<Rightarrow> c
      | t # below \<Rightarrow> c\<lparr>current := below, packed := packed c @ [t]\<rparr>)"

definition end_serialize :: "hb_serialize_context_t \<Rightarrow> hb_serialize_context_t" where
  "end_serialize c = c\<lparr>ended := True\<rparr>"

text \<open>
  The caller's memory, from which \<^verbatim>\<open>memcpy\<close> reads the payload of an object, and
  the two writes that the core itself makes into the bytes it was handed: the copy of
  the payload and the zeroing of an offset field of \<open>w\<close> bytes.
\<close>

type_synonym memory = "64 word \<Rightarrow> 8 word"

definition payload :: "memory \<Rightarrow> object_t \<Rightarrow> 8 word list" where
  "payload mem obj = map (\<lambda>k. mem (head obj + of_nat k)) [0..<unat (tail obj - head obj)]"

definition write_bytes :: "nat \<Rightarrow> 8 word list \<Rightarrow> 8 word list \<Rightarrow> 8 word list" where
  "write_bytes at src dst = fold (\<lambda>k d. d[at + k := src ! k]) [0..<length src] dst"

definition zero_field :: "nat \<Rightarrow> nat \<Rightarrow> 8 word list \<Rightarrow> 8 word list" where
  "zero_field at w dst = write_bytes at (replicate w 0) dst"

text \<open>
  \<^verbatim>\<open>serialize_link_of_type<O>\<close>: the template parameter is given by the width in
  bytes and the signedness of \<open>O\<close>. The field at \<open>head + link.position\<close> is set to
  zero, then the link is registered with the target index \<open>link.objidx + 1\<close>.
\<close>

definition serialize_link_of_type ::
  "nat \<Rightarrow> bool \<Rightarrow> link_t \<Rightarrow> nat \<Rightarrow> hb_serialize_context_t \<Rightarrow> hb_serialize_context_t" where
  "serialize_link_of_type w sg link start c =
     (let at = start + unat (position link);
          c' = on_top (\<lambda>t. t\<lparr>bytes := zero_field at w (bytes t)\<rparr>) c
      in add_link c' at (w = 4) sg (objidx link + 1) (whence link) (bias link))"

definition serialize_link ::
  "link_t \<Rightarrow> nat \<Rightarrow> hb_serialize_context_t \<Rightarrow> hb_serialize_context_t" where
  "serialize_link link start c =
     (if is_wide link then
        (if is_signed link then serialize_link_of_type 4 True link start c
         else serialize_link_of_type 4 False link start c)
      else
        (if is_signed link then serialize_link_of_type 2 True link start c
         else serialize_link_of_type 2 False link start c))"

text \<open>
  The loop of \<^verbatim>\<open>serialize\<close> over the objects, in ascending index order. \<open>Inl\<close> is
  the early \<^verbatim>\<open>return\<close> after a failed allocation (with the sink as it was left),
  \<open>Inr\<close> the sink after the last object.
\<close>

fun serialize_objects ::
  "memory \<Rightarrow> object_t list \<Rightarrow> hb_serialize_context_t
     \<Rightarrow> hb_serialize_context_t + hb_serialize_context_t" where
  "serialize_objects mem [] c = Inr c"
| "serialize_objects mem (obj # rest) c =
     (let c1 = push c;
          sz = tail obj - head obj
      in case allocate_size c1 sz of
           None \<Rightarrow> Inl c1
         | Some (start, c2) \<Rightarrow>
             let c3 = on_top (\<lambda>t. t\<lparr>bytes := write_bytes start (payload mem obj) (bytes t)\<rparr>) c2;
                 c4 = fold (\<lambda>link. serialize_link link start) (links obj) c3
             in serialize_objects mem rest (pop_pack c4 False))"

definition serialize :: "memory \<Rightarrow> graph_t \<Rightarrow> hb_serialize_context_t \<Rightarrow> hb_serialize_context_t" where
  "serialize mem g c =
     (case serialize_objects mem (objects g) (start_serialize c) of
        Inl c' \<Rightarrow> c'
      | Inr c' \<Rightarrow> end_serialize c')"


section \<open>The two sorts\<close>

text \<open>
  Modelled from the spec: \<^verbatim>\<open>hb_set_t\<close> (hb-set.hh), a set of \<^verbatim>\<open>unsigned\<close> numbers
  that is iterated in ascending order and cannot hold the sentinel. It is kept as an
  ascending list without repetitions.
\<close>

type_synonym hb_set_t = "32 word list"

definition hb_set_add :: "32 word \<Rightarrow> hb_set_t \<Rightarrow> hb_set_t" where
  "hb_set_add x s = (if x = INVALID \<or> x \<in> set s then s else insort x s)"

definition hb_set_del :: "32 word \<Rightarrow> hb_set_t \<Rightarrow> hb_set_t" where
  "hb_set_del x s = removeAll x s"

definition hb_set_has :: "hb_set_t \<Rightarrow> 32 word \<Rightarrow> bool" where
  "hb_set_has s x = (x \<in> set s)"

definition hb_set_add_range :: "32 word \<Rightarrow> 32 word \<Rightarrow> hb_set_t \<Rightarrow> hb_set_t" where
  "hb_set_add_range a b s =
     (if b < a \<or> a = INVALID \<or> b = INVALID then s
      else fold hb_set_add (map of_nat [unat a..<Suc (unat b)]) s)"

subsection \<open>Incoming edge counts\<close>

fun count_links :: "link_t list \<Rightarrow> hb_map_t \<Rightarrow> hb_map_t" where
  "count_links [] out = out"
| "count_links (l # ls) out =
     (let id = objidx l
      in count_links ls
           (if hb_map_has out id then hb_map_set out id (hb_map_get out id + 1)
            else hb_map_set out id 1))"

fun incoming_edge_count_loop :: "object_t list \<Rightarrow> nat list \<Rightarrow> hb_map_t \<Rightarrow> hb_map_t" where
  "incoming_edge_count_loop objs [] out = out"
| "incoming_edge_count_loop objs (i # idxs) out =
     (let out' = (if \<not> hb_map_has out (of_nat i) then hb_map_set out (of_nat i) 0 else out)
      in incoming_edge_count_loop objs idxs (count_links (links (objs ! i)) out'))"

definition incoming_edge_count :: "object_t list \<Rightarrow> hb_map_t" where
  "incoming_edge_count objs = incoming_edge_count_loop objs [0..<length objs] hb_map_empty"

subsection \<open>Remapping of the link indices\<close>

fun remap_links :: "hb_map_t \<Rightarrow> link_t list \<Rightarrow> error + link_t list" where
  "remap_links id_map [] = Inr []"
| "remap_links id_map (link # rest) =
     (if \<not> hb_map_has id_map (objidx link) then Inl GraphStructureError
      else case remap_links id_map rest of
             Inl e \<Rightarrow> Inl e
           | Inr rest' \<Rightarrow> Inr (link\<lparr>objidx := hb_map_get id_map (objidx link)\<rparr> # rest'))"

fun remap_obj_indices :: "hb_map_t \<Rightarrow> object_t list \<Rightarrow> error + object_t list" where
  "remap_obj_indices id_map [] = Inr []"
| "remap_obj_indices id_map (ob # rest) =
     (case remap_links id_map (links ob) of
        Inl e \<Rightarrow> Inl e
      | Inr ls \<Rightarrow>
          (case remap_obj_indices id_map rest of
             Inl e \<Rightarrow> Inl e
           | Inr rest' \<Rightarrow> Inr (ob\<lparr>links := ls\<rparr> # rest')))"

subsection \<open>The loop over the ready objects\<close>

text \<open>
  The local variables of \<^verbatim>\<open>sort_kahn\<close> and \<^verbatim>\<open>sort_shortest_distance\<close>. The queue
  is a vector used first-in first-out in the first and a set in the second; \<open>new_id\<close>
  is an \<^verbatim>\<open>int\<close> that is counted down and stored in the \<^verbatim>\<open>unsigned\<close> map.
\<close>

record sort_state =
  queue :: "32 word list"
  sorted_graph :: "object_t list"
  id_map :: hb_map_t
  edge_count :: hb_map_t
  new_id :: "32 word"

text \<open>
  The loop over the links of the object that was taken from the queue is the same in
  both sorts but for the way a child is added to the queue, which is the parameter
  \<open>add\<close>: the count of the child goes down by one, and the child is added when its
  count has become 0.
\<close>

fun decrement_children ::
  "(32 word \<Rightarrow> 32 word list \<Rightarrow> 32 word list) \<Rightarrow> link_t list \<Rightarrow> hb_map_t \<times> 32 word list
     \<Rightarrow> hb_map_t \<times> 32 word list" where
  "decrement_children add [] (ec, q) = (ec, q)"
| "decrement_children add (link # rest) (ec, q) =
     (let ec' = hb_map_set ec (objidx link) (hb_map_get ec (objidx link) - 1)
      in decrement_children add rest
           (ec', if hb_map_get ec' (objidx link) = 0 then add (objidx link) q else q))"

text \<open>
  One round of either loop once \<open>next_id\<close> has been taken out of the queue, which
  leaves \<open>rest\<close>.
\<close>

definition visit ::
  "(32 word \<Rightarrow> 32 word list \<Rightarrow> 32 word list) \<Rightarrow> object_t list \<Rightarrow> 32 word \<Rightarrow> 32 word list
     \<Rightarrow> sort_state \<Rightarrow> sort_state" where
  "visit add objs next_id rest s =
     (let next = vec_get objs next_id;
          (ec, q) = decrement_children add (links next) (edge_count s, rest)
      in \<lparr>queue = q,
          sorted_graph = sorted_graph s @ [next],
          id_map = hb_map_set (id_map s) next_id (new_id s),
          edge_count = ec,
          new_id = new_id s - 1\<rparr>)"

definition initial_state :: "object_t list \<Rightarrow> sort_state" where
  "initial_state objs =
     \<lparr>queue = [of_nat (length objs) - 1],
      sorted_graph = [],
      id_map = hb_map_empty,
      edge_count = incoming_edge_count objs,
      new_id = of_nat (length objs) - 1\<rparr>"

text \<open>
  What both sorts do after their loop: the check that every object was given a new
  index, the remapping of the links, and the reversal of the sorted sequence.
\<close>

definition finish_sort :: "graph_t \<Rightarrow> sort_state \<Rightarrow> error + graph_t" where
  "finish_sort g s =
     (if new_id s \<noteq> - 1 then Inl GraphStructureError
      else case remap_obj_indices (id_map s) (sorted_graph s) of
             Inl e \<Rightarrow> Inl e
           | Inr remapped \<Rightarrow> Inr (g\<lparr>objects := rev remapped\<rparr>))"

subsection \<open>Kahn sort\<close>

text \<open>
  The loop of \<^verbatim>\<open>sort_kahn\<close> has no bound that is evident from its text, so it is a
  partial function: \<open>None\<close> stands for a run that does not end.
\<close>

partial_function (option) kahn_loop :: "object_t list \<Rightarrow> sort_state \<Rightarrow> sort_state option" where
  "kahn_loop objs s =
     (case queue s of
        [] \<Rightarrow> Some s
      | next_id # rest \<Rightarrow> kahn_loop objs (visit (\<lambda>x q. q @ [x]) objs next_id rest s))"

declare kahn_loop.simps [code]

definition sort_kahn :: "graph_t \<Rightarrow> (error + graph_t) option" where
  "sort_kahn g =
     (if length (objects g) \<le> 1 then Some (Inr g)
      else case kahn_loop (objects g) (initial_state (objects g)) of
             None \<Rightarrow> None
           | Some s \<Rightarrow> Some (finish_sort g s))"

subsection \<open>Distances and the distance sort\<close>

definition INT64_MAX :: "64 word" where
  "INT64_MAX = 9223372036854775807"

text \<open>
  Reading and writing \<open>distance_to\<close>: an index out of range reads the null value 0,
  and a write to it leaves the vector as it is (\<^term>\<open>list_update\<close> does so).
\<close>

definition dist_get :: "64 word list \<Rightarrow> 32 word \<Rightarrow> 64 word" where
  "dist_get d i = (if unat i < length d then d ! unat i else 0)"

fun closest_scan :: "32 word list \<Rightarrow> 64 word list \<Rightarrow> 64 word \<times> 32 word \<Rightarrow> 64 word \<times> 32 word" where
  "closest_scan [] distance_to acc = acc"
| "closest_scan (i # rest) distance_to (closest_distance, closest_index) =
     (if dist_get distance_to i <s closest_distance
      then closest_scan rest distance_to (dist_get distance_to i, i)
      else closest_scan rest distance_to (closest_distance, closest_index))"

definition closest_object :: "hb_set_t \<Rightarrow> 64 word list \<Rightarrow> error + 32 word" where
  "closest_object candidates distance_to =
     (let (closest_distance, closest_index) = closest_scan candidates distance_to (INT64_MAX, - 1)
      in if closest_index = - 1 then Inl GraphStructureError else Inr closest_index)"

text \<open>
  The loop over the links of the object that \<^verbatim>\<open>compute_distances\<close> has just taken
  from \<open>unvisited\<close>. \<open>next_distance\<close> is declared \<^verbatim>\<open>int\<close>, a 32-bit value that is
  sign-extended when the weight of the child is added.
\<close>

fun relax_links ::
  "object_t list \<Rightarrow> hb_set_t \<Rightarrow> 32 word \<Rightarrow> link_t list \<Rightarrow> 64 word list \<Rightarrow> 64 word list" where
  "relax_links objs unvisited next_distance [] distance_to = distance_to"
| "relax_links objs unvisited next_distance (link # rest) distance_to =
     (if \<not> hb_set_has unvisited (objidx link)
      then relax_links objs unvisited next_distance rest distance_to
      else
        let child = vec_get objs (objidx link);
            child_weight = tail child - head child
               + (if \<not> is_wide link then scast (push_bit 16 (1 :: 32 word))
                  else push_bit 32 (1 :: 64 word));
            child_distance = scast next_distance + child_weight
        in relax_links objs unvisited next_distance rest
             (if child_distance <s dist_get distance_to (objidx link)
              then distance_to[unat (objidx link) := child_distance]
              else distance_to))"

lemma closest_scan_index:
  "closest_scan q d (cd, ci) = (cd', ci') \<Longrightarrow> ci' = ci \<or> ci' \<in> set q"
  by (induction q arbitrary: cd ci) (auto split: if_splits)

lemma closest_object_member:
  "closest_object q d = Inr i \<Longrightarrow> i \<in> set q"
  using closest_scan_index[of q d INT64_MAX "- 1"]
  by (auto simp: closest_object_def split: prod.splits if_splits)

function dijkstra_loop :: "object_t list \<Rightarrow> hb_set_t \<Rightarrow> 64 word list \<Rightarrow> error + 64 word list" where
  "dijkstra_loop objs unvisited distance_to =
     (if unvisited = [] then Inr distance_to
      else case closest_object unvisited distance_to of
             Inl e \<Rightarrow> Inl e
           | Inr next_idx \<Rightarrow>
               let next = vec_get objs next_idx;
                   next_distance = ucast (dist_get distance_to next_idx);
                   unvisited' = hb_set_del next_idx unvisited
               in dijkstra_loop objs unvisited'
                    (relax_links objs unvisited' next_distance (links next) distance_to))"
  by pat_completeness auto
termination
proof (relation "measure (\<lambda>(objs, unvisited, distance_to). length unvisited)")
  show "wf (measure (\<lambda>(objs, unvisited, distance_to). length unvisited))" by simp
next
  fix objs :: "object_t list" and unvisited :: hb_set_t and distance_to :: "64 word list"
    and x2 :: "32 word" and x :: object_t and xa :: "32 word" and xb :: hb_set_t
  assume "closest_object unvisited distance_to = Inr x2" and "xb = hb_set_del x2 unvisited"
  then have "length xb < length unvisited"
    using closest_object_member[of unvisited distance_to x2]
    by (simp add: hb_set_del_def length_removeAll_less)
  then show "((objs, xb, relax_links objs xb xa (links x) distance_to), objs, unvisited, distance_to)
       \<in> measure (\<lambda>(objs, unvisited, distance_to). length unvisited)"
    by simp
qed

declare dijkstra_loop.simps [simp del]

definition compute_distances :: "object_t list \<Rightarrow> error + 64 word list" where
  "compute_distances objs =
     (let n = length objs;
          distance_to = (replicate n INT64_MAX)[unat (of_nat n - 1 :: 32 word) := 0];
          unvisited = hb_set_add_range 0 (of_nat n - 1) []
      in dijkstra_loop objs unvisited distance_to)"

partial_function (option) distance_loop ::
  "object_t list \<Rightarrow> 64 word list \<Rightarrow> sort_state \<Rightarrow> (error + sort_state) option" where
  "distance_loop objs distance_to s =
     (if queue s = [] then Some (Inr s)
      else case closest_object (queue s) distance_to of
             Inl e \<Rightarrow> Some (Inl e)
           | Inr next_id \<Rightarrow>
               distance_loop objs distance_to
                 (visit hb_set_add objs next_id (hb_set_del next_id (queue s)) s))"

declare distance_loop.simps [code]

definition sort_shortest_distance :: "graph_t \<Rightarrow> (error + graph_t) option" where
  "sort_shortest_distance g =
     (if length (objects g) \<le> 1 then Some (Inr g)
      else case compute_distances (objects g) of
             Inl e \<Rightarrow> Some (Inl e)
           | Inr distance_to \<Rightarrow>
               (case distance_loop (objects g) distance_to (initial_state (objects g)) of
                  None \<Rightarrow> None
                | Some (Inl e) \<Rightarrow> Some (Inl e)
                | Some (Inr s) \<Rightarrow> Some (finish_sort g s)))"

section \<open>The driver\<close>

text \<open>
  \<^verbatim>\<open>hb_resolve_overflows\<close>. A failed assertion ends the run with its error; otherwise
  the result is the sink after \<^verbatim>\<open>serialize\<close>.
\<close>

definition hb_resolve_overflows ::
  "memory \<Rightarrow> object_t option list \<Rightarrow> hb_serialize_context_t
     \<Rightarrow> (error + hb_serialize_context_t) option" where
  "hb_resolve_overflows mem entries c =
     (case graph_t_new entries of
        Inl e \<Rightarrow> Some (Inl e)
      | Inr g \<Rightarrow>
          (case sort_kahn g of
             None \<Rightarrow> None
           | Some (Inl e) \<Rightarrow> Some (Inl e)
           | Some (Inr g1) \<Rightarrow>
               (case will_overflow g1 of
                  Inl e \<Rightarrow> Some (Inl e)
                | Inr (False, g2) \<Rightarrow> Some (Inr (serialize mem g2 c))
                | Inr (True, g2) \<Rightarrow>
                    (case sort_shortest_distance g2 of
                       None \<Rightarrow> None
                     | Some (Inl e) \<Rightarrow> Some (Inl e)
                     | Some (Inr g3) \<Rightarrow> Some (Inr (serialize mem g3 c))))))"

section \<open>The quantities of the specification\<close>

text \<open>
  The position of the anchor of a link and the raw offset of the specification, as
  integers: the start of the child minus the position of the anchor. The positions are
  the unsigned values of the two maps.
\<close>

definition anchor_position :: "32 word \<Rightarrow> link_t \<Rightarrow> hb_map_t \<Rightarrow> hb_map_t \<Rightarrow> int" where
  "anchor_position p l sp ep =
     (case whence l of Head \<Rightarrow> uint (sp p) | Tail \<Rightarrow> uint (ep p) | Absolute \<Rightarrow> 0)"

definition raw_offset :: "32 word \<Rightarrow> link_t \<Rightarrow> hb_map_t \<Rightarrow> hb_map_t \<Rightarrow> int" where
  "raw_offset p l sp ep = uint (sp (objidx l)) - anchor_position p l sp ep"

text \<open>
  The graph that an object sequence describes. Its nodes are the indices of the
  sequence, as the \<^verbatim>\<open>unsigned\<close> numbers that the links hold; there is an edge from
  a parent to a child for every link of the parent; the root is the last index.
\<close>

definition nodes :: "object_t list \<Rightarrow> 32 word set" where
  "nodes objs = {v. unat v < length objs}"

definition children :: "object_t list \<Rightarrow> 32 word \<Rightarrow> 32 word list" where
  "children objs p = map objidx (links (vec_get objs p))"

definition edges :: "object_t list \<Rightarrow> (32 word \<times> 32 word) set" where
  "edges objs = {(p, c). p \<in> nodes objs \<and> c \<in> set (children objs p)}"

definition root :: "object_t list \<Rightarrow> 32 word" where
  "root objs = of_nat (length objs) - 1"

definition reachable :: "object_t list \<Rightarrow> 32 word \<Rightarrow> bool" where
  "reachable objs v = ((root objs, v) \<in> (edges objs)\<^sup>*)"

definition root_connected :: "object_t list \<Rightarrow> bool" where
  "root_connected objs = (\<forall>v \<in> nodes objs. reachable objs v)"

text \<open>
  A sequence is well formed when its length and its number of links are below the
  sentinel of the maps (the lengths of the vectors are \<^verbatim>\<open>unsigned\<close>) and every link
  refers to an object of the sequence (invariant 1 of the specification).
\<close>

definition well_formed :: "object_t list \<Rightarrow> bool" where
  "well_formed objs =
     (length objs < 2 ^ 32 \<and> length (concat (map links objs)) < 2 ^ 32 - 1
      \<and> (\<forall>ob \<in> set objs. \<forall>l \<in> set (links ob). unat (objidx l) < length objs))"

text \<open>
  Reverse topological order (invariant 2 of the specification): every link leads
  from an index to a strictly smaller one.
\<close>

definition reverse_topological :: "object_t list \<Rightarrow> bool" where
  "reverse_topological objs =
     (\<forall>p < length objs. \<forall>l \<in> set (links (objs ! p)). unat (objidx l) < p)"

text \<open>
  The number of links to \<open>v\<close> that the objects of a set of nodes hold; taken over all
  nodes it is the number of incoming links of \<open>v\<close>.
\<close>

definition links_from :: "object_t list \<Rightarrow> 32 word set \<Rightarrow> 32 word \<Rightarrow> nat" where
  "links_from objs P v = (\<Sum>p \<in> P. count_list (children objs p) v)"

text \<open>The two maps that the first loop of \<^verbatim>\<open>will_overflow\<close> builds for a graph.\<close>

definition start_positions_of :: "object_t list \<Rightarrow> hb_map_t" where
  "start_positions_of objs =
     fst (positions objs (rev [0..<length objs]) (hb_map_empty, hb_map_empty, 0))"

definition end_positions_of :: "object_t list \<Rightarrow> hb_map_t" where
  "end_positions_of objs =
     fst (snd (positions objs (rev [0..<length objs]) (hb_map_empty, hb_map_empty, 0)))"

text \<open>Concrete inputs used below.\<close>

definition link_to :: "32 word \<Rightarrow> link_t" where
  "link_to c = \<lparr>is_wide = False, is_signed = False, whence = Head, position = 0,
                bias = 0, objidx = c\<rparr>"

definition wide_link_to :: "32 word \<Rightarrow> link_t" where
  "wide_link_to c = \<lparr>is_wide = True, is_signed = False, whence = Head, position = 0,
                     bias = 0, objidx = c\<rparr>"

definition obj :: "64 word \<Rightarrow> 64 word \<Rightarrow> link_t list \<Rightarrow> object_t" where
  "obj h t ls = \<lparr>head = h, tail = t, links = ls\<rparr>"

definition malformed_packed :: "object_t option list" where
  "malformed_packed =
     [None, Some (obj 20 10 [\<lparr>is_wide = True, is_signed = False, whence = Head,
                              position = 1000, bias = 0, objidx = 77\<rparr>])]"

definition two_packed :: "object_t list" where
  "two_packed = [obj 0 4 [], obj 4 8 [link_to 1]]"


section \<open>Notions used in the proofs\<close>

text \<open>
  The list of all nodes and of all link targets, the edge counts after a prefix of the
  counting loop, the invariant of the sorting loops (\<open>dn\<close> is the list of the
  objects visited so far, in the order of their visits), the sorted sequence that a
  completed loop yields, and conditions on a sequence that can be evaluated.
\<close>

text \<open>The link that \<^verbatim>\<open>serialize_link\<close> registers for a link of the graph.\<close>

definition emit_link :: "nat \<Rightarrow> link_t \<Rightarrow> link_t" where
  "emit_link start l = l\<lparr>position := of_nat (start + unat (position l)), objidx := objidx l + 1\<rparr>"

definition node_list :: "object_t list \<Rightarrow> 32 word list" where
  "node_list objs = map of_nat [0..<length objs]"

definition targets :: "object_t list \<Rightarrow> 32 word list" where
  "targets objs = concat (map (\<lambda>ob. map objidx (links ob)) objs)"

definition ec_of :: "32 word set \<Rightarrow> 32 word list \<Rightarrow> hb_map_t" where
  "ec_of seen T = (\<lambda>v. if v \<in> seen \<or> v \<in> set T then of_nat (count_list T v) else INVALID)"

definition sort_inv :: "object_t list \<Rightarrow> 32 word list \<Rightarrow> sort_state \<Rightarrow> bool" where
  "sort_inv objs dn s =
     (distinct (dn @ queue s) \<and> set (dn @ queue s) \<subseteq> nodes objs
      \<and> sorted_graph s = map (vec_get objs) dn
      \<and> new_id s = root objs - of_nat (length dn)
      \<and> (\<forall>k < length dn. id_map s (dn ! k) = root objs - of_nat k)
      \<and> (\<forall>v. v \<notin> set dn \<longrightarrow> id_map s v = INVALID)
      \<and> (\<forall>v \<in> nodes objs.
            unat (edge_count s v) + links_from objs (set dn) v = links_from objs (nodes objs) v)
      \<and> (\<forall>v \<in> set (dn @ queue s). v \<noteq> root objs \<longrightarrow> edge_count s v = 0)
      \<and> (\<forall>v \<in> set (dn @ queue s). reachable objs v)
      \<and> (\<forall>k < length dn. dn ! k \<noteq> root objs \<longrightarrow>
            (\<forall>p \<in> nodes objs. dn ! k \<in> set (children objs p) \<longrightarrow> p \<in> set (take k dn)))
      \<and> (\<forall>v \<in> nodes objs. v \<noteq> root objs \<and> edge_count s v = 0
            \<and> 0 < links_from objs (nodes objs) v \<longrightarrow> v \<in> set (dn @ queue s))
      \<and> ((dn = [] \<and> queue s = [root objs]) \<or> (dn \<noteq> [] \<and> hd dn = root objs)))"

definition no_link_to_root :: "object_t list \<Rightarrow> bool" where
  "no_link_to_root objs = (\<forall>p. reachable objs p \<longrightarrow> root objs \<notin> set (children objs p))"

definition remap_object :: "hb_map_t \<Rightarrow> object_t \<Rightarrow> object_t" where
  "remap_object m ob = ob\<lparr>links := map (\<lambda>l. l\<lparr>objidx := m (objidx l)\<rparr>) (links ob)\<rparr>"

definition sorted_objects :: "object_t list \<Rightarrow> 32 word list \<Rightarrow> hb_map_t \<Rightarrow> object_t list" where
  "sorted_objects objs dn m = rev (map (remap_object m) (map (vec_get objs) dn))"

definition every_node_has_parent :: "object_t list \<Rightarrow> bool" where
  "every_node_has_parent objs =
     list_all (\<lambda>i. list_ex (\<lambda>p. of_nat i \<in> set (children objs (of_nat p))) [0..<length objs])
       [0..<length objs - 1]"

definition truncation_graph :: "object_t list" where
  "truncation_graph =
     [obj 0 2 [], obj 2 4 [link_to 0], obj 4 8 [link_to 1], obj 8 12 [wide_link_to 0, wide_link_to 2]]"

definition detached_graph :: "object_t list" where
  "detached_graph = [obj 0 2 [], obj 2 4 [], obj 4 8 [link_to 1]]"

definition cyclic_detached_graph :: "object_t list" where
  "cyclic_detached_graph = [obj 0 2 [], obj 2 4 [link_to 2], obj 4 8 [link_to 1]]"

definition overflow_graph :: "object_t list" where
  "overflow_graph = [obj 0 4 [], obj 4 80004 [], obj 80004 80008 [link_to 1, link_to 0]]"

text \<open>Two object sequences that differ by a renaming of the indices, and two states of
the sorting loop that correspond under it.\<close>

definition renaming :: "object_t list \<Rightarrow> object_t list \<Rightarrow> hb_map_t \<Rightarrow> bool" where
  "renaming objs objs' \<pi> =
     (length objs' = length objs \<and> inj_on \<pi> (nodes objs) \<and> \<pi> ` nodes objs = nodes objs
      \<and> \<pi> (root objs) = root objs
      \<and> (\<forall>v \<in> nodes objs. vec_get objs' (\<pi> v) = remap_object \<pi> (vec_get objs v)))"

definition simulates :: "hb_map_t \<Rightarrow> object_t list \<Rightarrow> sort_state \<Rightarrow> sort_state \<Rightarrow> bool" where
  "simulates \<pi> objs s s' =
     (queue s' = map \<pi> (queue s)
      \<and> sorted_graph s' = map (remap_object \<pi>) (sorted_graph s)
      \<and> new_id s' = new_id s
      \<and> (\<forall>v \<in> nodes objs. edge_count s' (\<pi> v) = edge_count s v)
      \<and> (\<forall>v \<in> nodes objs. id_map s' (\<pi> v) = id_map s v))"

definition reordered_graph :: "object_t list" where
  "reordered_graph = [obj 0 2 [], obj 2 4 [], obj 4 8 [link_to 0], obj 8 12 [link_to 1, link_to 2]]"


text \<open>
  Conditions on the payloads: every payload is shorter than \<open>2^32\<close> bytes, and the
  number of bytes of all payloads together.
\<close>

definition payload_bounded :: "object_t list \<Rightarrow> bool" where
  "payload_bounded objs = (\<forall>ob \<in> set objs. unat (tail ob - head ob) < 2 ^ 32)"

definition payload_size :: "object_t list \<Rightarrow> nat" where
  "payload_size objs = sum_list (map (\<lambda>ob. unat (tail ob - head ob)) objs)"

text \<open>
  Further inputs: a memory that holds the byte 7 everywhere, a sink with room for
  100000 bytes, a graph whose only link has a bias above its offset, and a graph with
  a payload of \<open>2^63 - 65537\<close> bytes.
\<close>

definition sample_memory :: memory where
  "sample_memory = (\<lambda>a. 7)"

definition roomy_sink :: hb_serialize_context_t where
  "roomy_sink = \<lparr>room = 100000, current = [], packed = [], ended = False\<rparr>"

definition biased_link :: link_t where
  "biased_link = \<lparr>is_wide = False, is_signed = False, whence = Head, position = 0,
                   bias = 9, objidx = 0\<rparr>"

definition bias_graph :: "object_t list" where
  "bias_graph = [obj 0 8 [], obj 8 16 [biased_link]]"

definition huge_graph :: "object_t list" where
  "huge_graph = [obj 0 9223372036854710271 [], obj 0 70000 [], obj 0 4 [link_to 1, link_to 0]]"

section \<open>Properties of the oracle\<close>

lemma uint32_lt: "uint (x :: 32 word) < 4294967296"
  using uint_lt2p[of x] by simp

lemma sint_ucast_32_64: "sint (ucast (x :: 32 word) :: 64 word) = uint x"
proof -
  have a: "uint x < 2 ^ 63" using uint32_lt[of x] by simp
  have b: "- (2 ^ 63) \<le> uint x"
  proof -
    have "- (2 ^ 63) \<le> (0::int)" by simp
    also have "0 \<le> uint x" by simp
    finally show ?thesis .
  qed
  have c: "uint (ucast x :: 64 word) = uint x" by (simp add: uint_up_ucast is_up)
  have "signed_take_bit 63 (uint x) = uint x"
    using a b by (rule signed_take_bit_int_eq_self[rotated])
  then show ?thesis
    by (simp add: sint_uint c)
qed

lemma int_diff_bounds:
  "0 \<le> (x::int) \<Longrightarrow> x < 4294967296 \<Longrightarrow> 0 \<le> y \<Longrightarrow> y < 4294967296 \<Longrightarrow>
   - 9223372036854775808 \<le> x - y \<and> x - y < 9223372036854775808"
  by linarith

lemma sint_ucast_diff:
  fixes d b :: "32 word"
  shows "sint ((ucast d :: 64 word) - ucast b) = uint d - uint b"
proof -
  have bnd: "- 9223372036854775808 \<le> uint d - uint b \<and> uint d - uint b < 9223372036854775808"
    by (rule int_diff_bounds[OF uint_ge_0 uint32_lt uint_ge_0 uint32_lt])
  have lo: "- (2 ^ 63) \<le> uint d - uint b" using bnd by simp
  have hi: "uint d - uint b < 2 ^ 63" using bnd by simp
  have "sint ((ucast d :: 64 word) - ucast b) = signed_take_bit 63 (uint d - uint b)"
    by (simp add: sint_word_ariths sint_ucast_32_64)
  also have "\<dots> = uint d - uint b"
    using hi lo by (rule signed_take_bit_int_eq_self[rotated])
  finally show ?thesis .
qed

lemma uint32_mod: "uint (x :: 32 word) mod 4294967296 = uint x"
  using uint32_lt[of x] by simp

lemma offset_assert:
  fixes d b :: "32 word"
  shows "((ucast b :: 64 word) <=s ucast d) = (uint b \<le> uint d)"
  by (simp add: word_sle_eq sint_ucast_32_64)

lemma compute_offset_cases:
  "(compute_offset p l sp ep = Inl OffsetUnderflow \<and> raw_offset p l sp ep mod 2 ^ 32 < uint (bias l))
   \<or> (\<exists>v. compute_offset p l sp ep = Inr v \<and> uint (bias l) \<le> raw_offset p l sp ep mod 2 ^ 32
           \<and> sint v = raw_offset p l sp ep mod 2 ^ 32 - uint (bias l))"
  by (cases "whence l")
     (auto simp add: raw_offset_def anchor_position_def compute_offset_def Let_def
        hb_map_get_def offset_assert sint_ucast_diff uint_word_ariths uint32_mod)

lemma raw_offset_range:
  assumes "0 \<le> raw_offset p l sp ep"
  shows "raw_offset p l sp ep mod 2 ^ 32 = raw_offset p l sp ep"
proof -
  have "0 \<le> anchor_position p l sp ep"
    by (cases "whence l") (simp_all add: anchor_position_def)
  then have "raw_offset p l sp ep < 4294967296"
    using uint32_lt[of "sp (objidx l)"] unfolding raw_offset_def by linarith
  then show ?thesis using assms by simp
qed

text \<open>
  C3. For a link whose child does not start before its anchor, the oracle evaluates
  the raw offset \<open>start[c] - anchor\<close> (the anchor being \<open>start[p]\<close> for Head,
  \<open>end[p]\<close> for Tail and 0 for Absolute): it fails with \<open>OffsetUnderflow\<close> exactly
  when the bias exceeds the raw offset, and otherwise returns the 64-bit value of raw
  offset minus bias. The hypothesis holds for every link of a sequence in reverse
  topological order whose payloads total less than \<open>2^32\<close> bytes
  (\<open>reverse_topological_anchor\<close> below), the order in which the driver presents a
  graph to the oracle.
\<close>

theorem compute_offset_encoded:
  assumes "0 \<le> raw_offset p l sp ep"
  shows "compute_offset p l sp ep =
     (if raw_offset p l sp ep < uint (bias l) then Inl OffsetUnderflow
      else Inr (word_of_int (raw_offset p l sp ep - uint (bias l))))
   \<and> (\<forall>v. compute_offset p l sp ep = Inr v \<longrightarrow>
          sint v = raw_offset p l sp ep - uint (bias l))"
proof -
  note m = raw_offset_range[OF assms]
  from compute_offset_cases[of p l sp ep] show ?thesis
  proof
    assume "compute_offset p l sp ep = Inl OffsetUnderflow
              \<and> raw_offset p l sp ep mod 2 ^ 32 < uint (bias l)"
    then show ?thesis unfolding m by simp
  next
    assume "\<exists>v. compute_offset p l sp ep = Inr v \<and> uint (bias l) \<le> raw_offset p l sp ep mod 2 ^ 32
           \<and> sint v = raw_offset p l sp ep mod 2 ^ 32 - uint (bias l)"
    then obtain v where v: "compute_offset p l sp ep = Inr v"
      "uint (bias l) \<le> raw_offset p l sp ep" "sint v = raw_offset p l sp ep - uint (bias l)"
      unfolding m by blast
    have "word_of_int (sint v) = v" by simp
    then have "v = word_of_int (raw_offset p l sp ep - uint (bias l))" using v(3) by simp
    then show ?thesis using v by simp
  qed
qed

text \<open>
  Witness for C3: the link of the root of \<open>two_packed\<close> (after import) to the object
  at index 0, which starts 4 bytes after the root, and the link of the root of
  \<open>bias_graph\<close>, whose bias 9 exceeds the raw offset 8.
\<close>

theorem compute_offset_encoded_witness:
  "0 \<le> raw_offset 1 (link_to 0) (start_positions_of (map fix_indices two_packed))
          (end_positions_of (map fix_indices two_packed))
   \<and> raw_offset 1 (link_to 0) (start_positions_of (map fix_indices two_packed))
       (end_positions_of (map fix_indices two_packed)) = 4
   \<and> compute_offset 1 (link_to 0) (start_positions_of (map fix_indices two_packed))
       (end_positions_of (map fix_indices two_packed)) = Inr 4
   \<and> 0 \<le> raw_offset 1 biased_link (start_positions_of bias_graph) (end_positions_of bias_graph)
   \<and> raw_offset 1 biased_link (start_positions_of bias_graph) (end_positions_of bias_graph) = 8
   \<and> uint (bias biased_link) = 9
   \<and> compute_offset 1 biased_link (start_positions_of bias_graph) (end_positions_of bias_graph)
       = Inl OffsetUnderflow"
proof -
  let ?sp = "start_positions_of (map fix_indices two_packed)"
  let ?ep = "end_positions_of (map fix_indices two_packed)"
  let ?sb = "start_positions_of bias_graph"
  let ?eb = "end_positions_of bias_graph"
  have sp0: "?sp 0 = 4" and sp1: "?sp 1 = 0" by code_simp+
  have sb0: "?sb 0 = 8" and sb1: "?sb 1 = 0" by code_simp+
  have r: "raw_offset 1 (link_to 0) ?sp ?ep = 4"
    by (simp add: raw_offset_def anchor_position_def link_to_def sp0 sp1)
  have rb: "raw_offset 1 biased_link ?sb ?eb = 8"
    by (simp add: raw_offset_def anchor_position_def biased_link_def sb0 sb1)
  have b: "uint (bias biased_link) = 9" by (simp add: biased_link_def)
  have c: "compute_offset 1 (link_to 0) ?sp ?ep = Inr 4"
    using compute_offset_encoded[of 1 "link_to 0" ?sp ?ep] r by (simp add: link_to_def)
  have cb: "compute_offset 1 biased_link ?sb ?eb = Inl OffsetUnderflow"
    using compute_offset_encoded[of 1 biased_link ?sb ?eb] rb b by simp
  show ?thesis using r rb b c cb by simp
qed

text \<open>
  C4. The fits check accepts an offset exactly when its value lies in the range of the
  link's width and signedness; the four boundary values of a signed narrow link.
\<close>

theorem is_valid_offset_range:
  "is_valid_offset offset link =
     (if is_signed link
      then (if is_wide link then - (2 ^ 31) \<le> sint offset \<and> sint offset < 2 ^ 31
            else - (2 ^ 15) \<le> sint offset \<and> sint offset < 2 ^ 15)
      else (if is_wide link then 0 \<le> sint offset \<and> sint offset < 2 ^ 32
            else 0 \<le> sint offset \<and> sint offset < 2 ^ 16))
   \<and> is_valid_offset (- 32768) (link\<lparr>is_signed := True, is_wide := False\<rparr>)
   \<and> is_valid_offset 32767 (link\<lparr>is_signed := True, is_wide := False\<rparr>)
   \<and> \<not> is_valid_offset (- 32769) (link\<lparr>is_signed := True, is_wide := False\<rparr>)
   \<and> \<not> is_valid_offset 32768 (link\<lparr>is_signed := True, is_wide := False\<rparr>)"
  by (simp add: is_valid_offset_def word_sle_eq word_sless_alt)

text \<open>
  C10. \<^verbatim>\<open>will_overflow\<close> leaves the graph as it found it, whatever it answers.
\<close>

theorem will_overflow_pure:
  "will_overflow g = Inr (b, g') \<Longrightarrow> g' = g"
  by (auto simp: will_overflow_def Let_def split: prod.splits sum.splits)

theorem will_overflow_pure_witness:
  "will_overflow \<lparr>objects = map fix_indices two_packed\<rparr>
     = Inr (False, \<lparr>objects = map fix_indices two_packed\<rparr>)"
proof -
  have h: "will_overflow \<lparr>objects = map fix_indices two_packed\<rparr>
             = Inr (False, \<lparr>objects = map fix_indices two_packed\<rparr>)"
    by code_simp
  from will_overflow_pure[OF h] h show ?thesis by simp
qed

section \<open>Properties of construction and re-emission\<close>

lemma graph_t_loop_some:
  "graph_t_loop (map Some objs) (Suc i) removed acc =
     Inr (acc @ map (\<lambda>obj. if removed then fix_indices obj else obj) objs)"
  by (induction objs arbitrary: i acc) auto

lemma graph_t_new_nil:
  "graph_t_new (None # map Some objs) = Inr \<lparr>objects = map fix_indices objs\<rparr>"
  using graph_t_loop_some[of objs 0 True "[]"] by (simp add: graph_t_new_def)

lemma graph_t_new_some:
  "graph_t_new (map Some objs) = Inr \<lparr>objects = objs\<rparr>"
proof (cases objs)
  case Nil
  then show ?thesis by (simp add: graph_t_new_def)
next
  case (Cons a rest)
  then show ?thesis
    using graph_t_loop_some[of rest 0 False "[a]"] by (simp add: graph_t_new_def)
qed

lemma graph_t_loop_Inl:
  "graph_t_loop entries (Suc i) removed acc = Inl e \<Longrightarrow> e = NullObject \<and> None \<in> set entries"
proof (induction entries arbitrary: i removed acc)
  case Nil
  then show ?case by simp
next
  case (Cons entry rest)
  show ?case
  proof (cases entry)
    case None
    then show ?thesis using Cons.prems by simp
  next
    case (Some a)
    then have "graph_t_loop rest (Suc (Suc i)) removed
                 (acc @ [if removed then fix_indices a else a]) = Inl e"
      using Cons.prems by simp
    from Cons.IH[OF this] show ?thesis by simp
  qed
qed

lemma graph_t_new_Inl:
  "graph_t_new entries = Inl e \<Longrightarrow> e = NullObject \<and> None \<in> set (tl entries)"
proof (cases entries)
  case Nil
  assume "graph_t_new entries = Inl e"
  then show ?thesis using Nil by (simp add: graph_t_new_def)
next
  case (Cons entry rest)
  assume a: "graph_t_new entries = Inl e"
  show ?thesis
  proof (cases entry)
    case None
    then have "graph_t_loop rest (Suc 0) True [] = Inl e"
      using a Cons by (simp add: graph_t_new_def split: sum.splits)
    from graph_t_loop_Inl[OF this] show ?thesis using Cons by simp
  next
    case (Some b)
    then have "graph_t_loop rest (Suc 0) False [b] = Inl e"
      using a Cons by (simp add: graph_t_new_def split: sum.splits)
    from graph_t_loop_Inl[OF this] show ?thesis using Cons by simp
  qed
qed

text \<open>
  C6 (as amended). The constructor validates nothing. It succeeds on every list of
  non-null objects, with or without the nil entry in front, whatever their payload
  anchors, link positions and child indices are; with the nil entry it drops it and
  decrements the child index of every link. Its only failure is a null entry at an
  index other than 0.
\<close>

theorem graph_t_new_accepts:
  "graph_t_new (map Some objs) = Inr \<lparr>objects = objs\<rparr>
   \<and> graph_t_new (None # map Some objs) = Inr \<lparr>objects = map fix_indices objs\<rparr>
   \<and> (\<forall>e. graph_t_new entries = Inl e \<longrightarrow> e = NullObject \<and> None \<in> set (tl entries))"
  using graph_t_new_some graph_t_new_nil graph_t_new_Inl by blast

theorem graph_t_new_accepts_witness:
  "graph_t_new [None, None] = Inl NullObject \<and> None \<in> set (tl [None, None :: object_t option])"
proof -
  have h: "graph_t_new [None, None] = Inl NullObject" by code_simp
  from graph_t_new_accepts[where entries = "[None, None]"] h show ?thesis by simp
qed

text \<open>
  Counterexample to C6 as stated: the single object of \<open>malformed_packed\<close> has its
  tail before its head, a link position of 1000 and a link to object 77 of a list of
  two entries; the constructor succeeds on it.
\<close>

theorem graph_t_new_counterexample:
  "graph_t_new malformed_packed =
     Inr \<lparr>objects = [obj 20 10 [\<lparr>is_wide = True, is_signed = False, whence = Head,
                                   position = 1000, bias = 0, objidx = 76\<rparr>]]\<rparr>"
  by code_simp

lemma fold_update_nth:
  "distinct ks \<Longrightarrow> length (fold (\<lambda>k d. d[at + k := f k]) ks d) = length d \<and>
   (\<forall>j < length d. fold (\<lambda>k d. d[at + k := f k]) ks d ! j =
      (if \<exists>k \<in> set ks. j = at + k then f (j - at) else d ! j))"
proof (induction ks arbitrary: d)
  case Nil
  then show ?case by simp
next
  case (Cons k ks)
  have d: "distinct ks" and nk: "k \<notin> set ks" using Cons.prems by auto
  note ih = Cons.IH[OF d, of "d[at + k := f k]"]
  show ?case
  proof (intro conjI allI impI)
    show "length (fold (\<lambda>k d. d[at + k := f k]) (k # ks) d) = length d"
      using ih by simp
  next
    fix j assume j: "j < length d"
    then have j': "j < length (d[at + k := f k])" by simp
    from ih j' have e: "fold (\<lambda>k d. d[at + k := f k]) ks (d[at + k := f k]) ! j =
      (if \<exists>k' \<in> set ks. j = at + k' then f (j - at) else d[at + k := f k] ! j)" by blast
    show "fold (\<lambda>k d. d[at + k := f k]) (k # ks) d ! j =
      (if \<exists>k' \<in> set (k # ks). j = at + k' then f (j - at) else d ! j)"
      using e j by (auto simp: nth_list_update)
  qed
qed


lemma write_bytes_length [simp]: "length (write_bytes at src dst) = length dst"
  using fold_update_nth[of "[0..<length src]" at "\<lambda>k. src ! k" dst]
  by (simp add: write_bytes_def)


lemma zero_field_length [simp]: "length (zero_field at w dst) = length dst"
  by (simp add: zero_field_def)

lemma serialize_link_top:
  "current c = t # below \<Longrightarrow>
   serialize_link l start c =
     c\<lparr>current := t\<lparr>bytes := zero_field (start + unat (position l)) (if is_wide l then 4 else 2) (bytes t),
                     plinks := plinks t @ [emit_link start l]\<rparr> # below\<rparr>"
  by (simp add: serialize_link_def serialize_link_of_type_def add_link_def on_top_def Let_def emit_link_def)

lemma fold_serialize_link:
  "current c = t # below \<Longrightarrow>
   \<exists>bs. length bs = length (bytes t) \<and> fold (\<lambda>link. serialize_link link start) ls c =
     c\<lparr>current := t\<lparr>bytes := bs, plinks := plinks t @ map (emit_link start) ls\<rparr> # below\<rparr>"
proof (induction ls arbitrary: c t)
  case Nil
  then show ?case by (intro exI[of _ "bytes t"]) simp
next
  case (Cons l ls)
  let ?t = "t\<lparr>bytes := zero_field (start + unat (position l)) (if is_wide l then 4 else 2) (bytes t),
                     plinks := plinks t @ [emit_link start l]\<rparr>"
  let ?c = "c\<lparr>current := ?t # below\<rparr>"
  have s: "serialize_link l start c = ?c" using Cons.prems by (rule serialize_link_top)
  have "current ?c = ?t # below" by simp
  from Cons.IH[OF this] obtain bs where
    "length bs = length (bytes ?t)"
    "fold (\<lambda>link. serialize_link link start) ls ?c =
     ?c\<lparr>current := ?t\<lparr>bytes := bs, plinks := plinks ?t @ map (emit_link start) ls\<rparr> # below\<rparr>"
    by blast
  then show ?case using s by (intro exI[of _ bs]) simp
qed






section \<open>Nodes and link counts\<close>

lemma unat_of_nat32: "k < 2 ^ 32 \<Longrightarrow> unat (of_nat k :: 32 word) = k"
  by (simp add: unat_of_nat)

lemma node_of_nat: "length objs < 2 ^ 32 \<Longrightarrow> i < length objs \<Longrightarrow> of_nat i \<in> nodes objs"
  by (simp add: nodes_def unat_of_nat32)

lemma nodes_image: "length objs < 2 ^ 32 \<Longrightarrow> nodes objs = of_nat ` {..<length objs}"
proof (intro set_eqI iffI)
  fix v assume "length objs < 2 ^ 32" "v \<in> nodes objs"
  then have "unat v \<in> {..<length objs}" by (simp add: nodes_def)
  moreover have "v = of_nat (unat v)" by simp
  ultimately show "v \<in> of_nat ` {..<length objs}" by (rule rev_image_eqI)
next
  fix v :: "32 word" assume "length objs < 2 ^ 32" "v \<in> of_nat ` {..<length objs}"
  then show "v \<in> nodes objs" by (auto simp: node_of_nat)
qed

lemma inj_on_of_nat32: "n \<le> 2 ^ 32 \<Longrightarrow> inj_on (of_nat :: nat \<Rightarrow> 32 word) {..<n}"
proof (rule inj_onI)
  fix x y assume n: "n \<le> 2 ^ 32" and x: "x \<in> {..<n}" and y: "y \<in> {..<n}"
    and e: "(of_nat x :: 32 word) = of_nat y"
  have "x < n" "y < n" using x y by simp_all
  then have xb: "x < 2 ^ 32" and yb: "y < 2 ^ 32" using n by linarith+
  have ux: "unat (of_nat x :: 32 word) = x" using xb by (rule unat_of_nat32)
  have uy: "unat (of_nat y :: 32 word) = y" using yb by (rule unat_of_nat32)
  from e have "unat (of_nat x :: 32 word) = unat (of_nat y :: 32 word)" by (rule arg_cong)
  then show "x = y" by (simp only: ux uy)
qed

lemma card_nodes: "length objs < 2 ^ 32 \<Longrightarrow> card (nodes objs) = length objs"
proof -
  assume n: "length objs < 2 ^ 32"
  then have "inj_on (of_nat :: nat \<Rightarrow> 32 word) {..<length objs}"
    by (intro inj_on_of_nat32) simp
  then have "card ((of_nat :: nat \<Rightarrow> 32 word) ` {..<length objs}) = card {..<length objs}"
    by (rule card_image)
  then show ?thesis using n by (simp only: nodes_image card_lessThan)
qed

lemma finite_nodes [simp]: "finite (nodes objs)"
  by simp

lemma node_not_INVALID: "length objs < 2 ^ 32 \<Longrightarrow> v \<in> nodes objs \<Longrightarrow> v \<noteq> INVALID"
proof
  assume n: "length objs < 2 ^ 32" and v: "v \<in> nodes objs" and e: "v = INVALID"
  have "unat (- 1 :: 32 word) = 4294967295"
    by (simp add: unsigned_minus_1_eq_mask mask_eq_exp_minus_1)
  then show False using n v e by (simp add: nodes_def INVALID_def)
qed

lemma unat_root: "0 < length objs \<Longrightarrow> length objs < 2 ^ 32 \<Longrightarrow> unat (root objs) = length objs - 1"
proof -
  assume a: "0 < length objs" "length objs < 2 ^ 32"
  then have u: "unat (of_nat (length objs) :: 32 word) = length objs" by (simp add: unat_of_nat32)
  then have "(of_nat (length objs) :: 32 word) \<noteq> 0" using a by (metis less_numeral_extra(3) unat_0)
  then have "unat ((of_nat (length objs) :: 32 word) - 1) = unat (of_nat (length objs) :: 32 word) - 1"
    by (rule unat_minus_one)
  then show ?thesis by (simp add: root_def u)
qed

lemma root_node: "0 < length objs \<Longrightarrow> length objs < 2 ^ 32 \<Longrightarrow> root objs \<in> nodes objs"
  by (simp add: nodes_def unat_root)

lemma vec_get_node: "v \<in> nodes objs \<Longrightarrow> vec_get objs v = objs ! unat v"
  by (simp add: nodes_def vec_get_def)

lemma children_nodes:
  "well_formed objs \<Longrightarrow> p \<in> nodes objs \<Longrightarrow> c \<in> set (children objs p) \<Longrightarrow> c \<in> nodes objs"
  by (auto simp: well_formed_def children_def vec_get_node nodes_def)

lemma links_from_insert:
  "p \<notin> P \<Longrightarrow> links_from objs (insert p P) v = count_list (children objs p) v + links_from objs P v"
  by (simp add: links_from_def)

lemma links_from_mono:
  "P \<subseteq> Q \<Longrightarrow> links_from objs P v \<le> links_from objs Q v"
  unfolding links_from_def by (rule sum_mono2) auto

lemma links_from_list:
  "distinct ps \<Longrightarrow> links_from objs (set ps) v = count_list (concat (map (children objs) ps)) v"
  by (simp add: links_from_def count_list_concat sum_list_distinct_conv_sum_set comp_def)

lemma links_from_full:
  "links_from objs P v = links_from objs Q v \<Longrightarrow> P \<subseteq> Q \<Longrightarrow> p \<in> Q - P \<Longrightarrow>
   v \<notin> set (children objs p)"
proof -
  assume e: "links_from objs P v = links_from objs Q v" and s: "P \<subseteq> Q" and p: "p \<in> Q - P"
  have "Q = P \<union> (Q - P)" "P \<inter> (Q - P) = {}" using s by auto
  then have "links_from objs Q v = links_from objs P v + links_from objs (Q - P) v"
    unfolding links_from_def by (metis finite sum.union_disjoint)
  then have "links_from objs (Q - P) v = 0" using e by simp
  then have "count_list (children objs p) v = 0" using p by (simp add: links_from_def)
  then show ?thesis by (simp add: count_list_0_iff)
qed

lemma node_list_props:
  "length objs < 2 ^ 32 \<Longrightarrow> distinct (node_list objs) \<and> set (node_list objs) = nodes objs"
  using inj_on_of_nat32[of "length objs"]
  by (simp add: node_list_def distinct_map nodes_image lessThan_atLeast0)

lemma targets_node_list:
  "length objs < 2 ^ 32 \<Longrightarrow>
   concat (map (children objs) (node_list objs)) = concat (map (\<lambda>ob. map objidx (links ob)) objs)"
proof -
  assume n: "length objs < 2 ^ 32"
  have "map (children objs) (node_list objs) = map (\<lambda>i. map objidx (links (objs ! i))) [0..<length objs]"
    using n by (auto simp: node_list_def children_def vec_get_def unat_of_nat32)
  also have "\<dots> = map (\<lambda>ob. map objidx (links ob)) (map (\<lambda>i. objs ! i) [0..<length objs])"
    by simp
  also have "\<dots> = map (\<lambda>ob. map objidx (links ob)) objs"
    by (simp only: map_nth)
  finally show ?thesis by simp
qed

lemma indegree_targets:
  "length objs < 2 ^ 32 \<Longrightarrow> links_from objs (nodes objs) v = count_list (targets objs) v"
  using links_from_list[of "node_list objs" objs v] node_list_props[of objs] targets_node_list[of objs]
  by (simp add: targets_def)

lemma length_targets: "length (targets objs) = length (concat (map links objs))"
  unfolding targets_def by (induction objs) simp_all

section \<open>The incoming edge counts\<close>

lemma unat_INVALID: "unat INVALID = 4294967295"
  by (simp add: INVALID_def unsigned_minus_1_eq_mask mask_eq_exp_minus_1)

lemma of_nat_ne_INVALID: "k < 2 ^ 32 - 1 \<Longrightarrow> (of_nat k :: 32 word) \<noteq> INVALID"
proof
  assume k: "k < 2 ^ 32 - 1" and e: "(of_nat k :: 32 word) = INVALID"
  have "k < 2 ^ 32" using k by simp
  then have "unat (of_nat k :: 32 word) = k" by (rule unat_of_nat32)
  moreover have "unat (of_nat k :: 32 word) = 4294967295" by (simp only: e unat_INVALID)
  ultimately show False using k by simp
qed

lemma count_list_le_length: "count_list xs x \<le> length xs"
  by (induction xs) auto

lemma ec_of_has:
  "length T < 2 ^ 32 - 1 \<Longrightarrow> hb_map_has (ec_of seen T) v = (v \<in> seen \<or> v \<in> set T)"
proof -
  assume b: "length T < 2 ^ 32 - 1"
  have "count_list T v < 2 ^ 32 - 1" using count_list_le_length[of T v] b by linarith
  then have "(of_nat (count_list T v) :: 32 word) \<noteq> INVALID" by (rule of_nat_ne_INVALID)
  then show ?thesis by (simp add: hb_map_has_def hb_map_get_def ec_of_def)
qed

lemma ec_of_step:
  assumes b: "length T < 2 ^ 32 - 1" and i: "c \<noteq> INVALID"
  shows "(if hb_map_has (ec_of seen T) c then hb_map_set (ec_of seen T) c (hb_map_get (ec_of seen T) c + 1)
          else hb_map_set (ec_of seen T) c 1) = ec_of seen (T @ [c])"
proof (rule ext)
  fix v
  show "(if hb_map_has (ec_of seen T) c then hb_map_set (ec_of seen T) c (hb_map_get (ec_of seen T) c + 1)
          else hb_map_set (ec_of seen T) c 1) v = ec_of seen (T @ [c]) v"
  proof (cases "v = c")
    case True
    show ?thesis
    proof (cases "c \<in> seen \<or> c \<in> set T")
      case True
      then have "hb_map_has (ec_of seen T) c" using b by (simp add: ec_of_has)
      then show ?thesis using \<open>v = c\<close> i True
        by (simp add: hb_map_set_def hb_map_get_def ec_of_def)
    next
      case False
      then have "\<not> hb_map_has (ec_of seen T) c" using b by (simp add: ec_of_has)
      moreover have "count_list T c = 0" using False by (simp add: count_list_0_iff)
      ultimately show ?thesis using \<open>v = c\<close> i
        by (simp add: hb_map_set_def ec_of_def)
    qed
  next
    case False
    then show ?thesis using i by (simp add: hb_map_set_def ec_of_def)
  qed
qed

lemma count_links_ec:
  "length T + length ls < 2 ^ 32 - 1 \<Longrightarrow> \<forall>l \<in> set ls. objidx l \<noteq> INVALID \<Longrightarrow>
   count_links ls (ec_of seen T) = ec_of seen (T @ map objidx ls)"
proof (induction ls arbitrary: T)
  case Nil
  then show ?case by simp
next
  case (Cons l ls)
  have b: "length T < 2 ^ 32 - 1" using Cons.prems(1) by simp
  have i: "objidx l \<noteq> INVALID" using Cons.prems(2) by simp
  have "count_links (l # ls) (ec_of seen T) = count_links ls (ec_of seen (T @ [objidx l]))"
    using ec_of_step[OF b i, of seen] by (simp add: Let_def)
  also have "\<dots> = ec_of seen ((T @ [objidx l]) @ map objidx ls)"
    using Cons.prems by (intro Cons.IH) simp_all
  finally show ?case by simp
qed

lemma ec_of_seen:
  assumes b: "length T < 2 ^ 32 - 1" and i: "c \<noteq> INVALID"
  shows "(if \<not> hb_map_has (ec_of seen T) c then hb_map_set (ec_of seen T) c 0 else ec_of seen T)
         = ec_of (insert c seen) T"
proof (rule ext)
  fix v
  show "(if \<not> hb_map_has (ec_of seen T) c then hb_map_set (ec_of seen T) c 0 else ec_of seen T) v
         = ec_of (insert c seen) T v"
  proof (cases "c \<in> seen \<or> c \<in> set T")
    case True
    then have "hb_map_has (ec_of seen T) c" using b by (simp add: ec_of_has)
    then show ?thesis using True by (auto simp add: ec_of_def)
  next
    case False
    then have "\<not> hb_map_has (ec_of seen T) c" using b by (simp add: ec_of_has)
    moreover have "count_list T c = 0" using False by (simp add: count_list_0_iff)
    ultimately show ?thesis using i by (simp add: hb_map_set_def ec_of_def)
  qed
qed

lemma incoming_edge_count_loop_ec:
  "length objs < 2 ^ 32 \<Longrightarrow> set idxs \<subseteq> {..<length objs} \<Longrightarrow>
   length T + length (concat (map (\<lambda>i. links (objs ! i)) idxs)) < 2 ^ 32 - 1 \<Longrightarrow>
   \<forall>i \<in> set idxs. \<forall>l \<in> set (links (objs ! i)). objidx l \<noteq> INVALID \<Longrightarrow>
   incoming_edge_count_loop objs idxs (ec_of seen T) =
     ec_of (seen \<union> of_nat ` set idxs) (T @ concat (map (\<lambda>i. map objidx (links (objs ! i))) idxs))"
proof (induction idxs arbitrary: seen T)
  case Nil
  then show ?case by simp
next
  case (Cons i idxs)
  have b: "length T < 2 ^ 32 - 1" using Cons.prems(3) by simp
  have "i < length objs" using Cons.prems(2) by simp
  then have "of_nat i \<in> nodes objs" using Cons.prems(1) by (simp add: node_of_nat)
  then have ni: "(of_nat i :: 32 word) \<noteq> INVALID" using Cons.prems(1) by (rule node_not_INVALID[rotated])
  let ?T = "T @ map objidx (links (objs ! i))"
  have s1: "(if \<not> hb_map_has (ec_of seen T) (of_nat i) then hb_map_set (ec_of seen T) (of_nat i) 0
             else ec_of seen T) = ec_of (insert (of_nat i) seen) T"
    using b ni by (rule ec_of_seen)
  have s2: "count_links (links (objs ! i)) (ec_of (insert (of_nat i) seen) T)
             = ec_of (insert (of_nat i) seen) ?T"
    using Cons.prems(3,4) by (intro count_links_ec) simp_all
  have "incoming_edge_count_loop objs (i # idxs) (ec_of seen T)
        = incoming_edge_count_loop objs idxs (ec_of (insert (of_nat i) seen) ?T)"
    by (simp add: Let_def s1 s2)
  also have "\<dots> = ec_of (insert (of_nat i) seen \<union> of_nat ` set idxs)
                      (?T @ concat (map (\<lambda>i. map objidx (links (objs ! i))) idxs))"
    using Cons.prems by (intro Cons.IH) simp_all
  finally show ?case by simp
qed

lemma well_formed_length: "well_formed objs \<Longrightarrow> length objs < 2 ^ 32"
  by (simp add: well_formed_def)

lemma well_formed_links:
  "well_formed objs \<Longrightarrow> i < length objs \<Longrightarrow> l \<in> set (links (objs ! i)) \<Longrightarrow> objidx l \<in> nodes objs"
  by (auto simp: well_formed_def nodes_def)

lemma incoming_edge_count_ec:
  assumes wf: "well_formed objs"
  shows "incoming_edge_count objs = ec_of (nodes objs) (targets objs)"
proof -
  have n: "length objs < 2 ^ 32" using wf by (rule well_formed_length)
  have m: "map (\<lambda>i. f (objs ! i)) [0..<length objs] = map f objs" for f :: "object_t \<Rightarrow> 'b"
  proof -
    have "map (\<lambda>i. f (objs ! i)) [0..<length objs] = map f (map (\<lambda>i. objs ! i) [0..<length objs])"
      by simp
    then show ?thesis by (simp only: map_nth)
  qed
  have e: "hb_map_empty = ec_of {} []" by (simp add: hb_map_empty_def ec_of_def)
  have v: "\<forall>i \<in> set [0..<length objs]. \<forall>l \<in> set (links (objs ! i)). objidx l \<noteq> INVALID"
    using well_formed_links[OF wf] node_not_INVALID[OF n] by auto
  have b: "length ([] :: 32 word list) + length (concat (map (\<lambda>i. links (objs ! i)) [0..<length objs])) < 2 ^ 32 - 1"
    using wf m[of links] by (simp add: well_formed_def)
  have "incoming_edge_count objs =
     ec_of ({} \<union> of_nat ` set [0..<length objs])
       ([] @ concat (map (\<lambda>i. map objidx (links (objs ! i))) [0..<length objs]))"
    unfolding incoming_edge_count_def e
    using n _ b v by (rule incoming_edge_count_loop_ec) auto
  also have "\<dots> = ec_of (nodes objs) (targets objs)"
    using n m[of "\<lambda>ob. map objidx (links ob)"]
    by (simp add: targets_def nodes_image lessThan_atLeast0)
  finally show ?thesis .
qed

lemma indegree_bound:
  "well_formed objs \<Longrightarrow> links_from objs (nodes objs) v < 2 ^ 32 - 1"
proof -
  assume wf: "well_formed objs"
  have "links_from objs (nodes objs) v = count_list (targets objs) v"
    by (rule indegree_targets[OF well_formed_length[OF wf]])
  also have "\<dots> \<le> length (targets objs)" by (rule count_list_le_length)
  also have "\<dots> < 2 ^ 32 - 1" using wf by (simp add: length_targets well_formed_def)
  finally show ?thesis .
qed

lemma incoming_edge_count_node:
  "well_formed objs \<Longrightarrow> v \<in> nodes objs \<Longrightarrow>
   unat (incoming_edge_count objs v) = links_from objs (nodes objs) v"
proof -
  assume wf: "well_formed objs" and v: "v \<in> nodes objs"
  have "links_from objs (nodes objs) v < 2 ^ 32" using indegree_bound[OF wf, of v] by simp
  then have "unat (of_nat (links_from objs (nodes objs) v) :: 32 word) = links_from objs (nodes objs) v"
    by (rule unat_of_nat32)
  then show ?thesis
    using v by (simp add: incoming_edge_count_ec[OF wf] ec_of_def
        indegree_targets[OF well_formed_length[OF wf], symmetric])
qed

section \<open>The loop over the links of a visited object\<close>

lemma decrement_children_spec:
  assumes add_set: "\<And>x q. x \<noteq> INVALID \<Longrightarrow> set (add x q) = insert x (set q)"
    and add_distinct: "\<And>x q. x \<noteq> INVALID \<Longrightarrow> distinct q \<Longrightarrow> x \<notin> set q \<Longrightarrow> distinct (add x q)"
  shows "\<forall>v. count_list (map objidx ls) v \<le> unat (ec v) \<Longrightarrow> INVALID \<notin> objidx ` set ls \<Longrightarrow>
    \<exists>ec' q'. decrement_children add ls (ec, q) = (ec', q')
      \<and> (\<forall>v. unat (ec' v) = unat (ec v) - count_list (map objidx ls) v)
      \<and> set q' = set q \<union> {c \<in> objidx ` set ls. unat (ec c) = count_list (map objidx ls) c}
      \<and> (distinct q \<and> (\<forall>c \<in> objidx ` set ls. unat (ec c) = count_list (map objidx ls) c \<longrightarrow> c \<notin> set q)
           \<longrightarrow> distinct q')"
proof (induction ls arbitrary: ec q)
  case Nil
  then show ?case by simp
next
  case (Cons l ls)
  let ?c = "objidx l"
  let ?T = "map objidx ls"
  have cv: "?c \<noteq> INVALID" using Cons.prems(2) by auto
  have ge1: "count_list ?T ?c + 1 \<le> unat (ec ?c)" using Cons.prems(1)[rule_format, of ?c] by simp
  then have "unat (ec ?c) \<noteq> 0" by linarith
  then have nz: "ec ?c \<noteq> 0" by (metis unat_0)
  have um: "unat (ec ?c - 1) = unat (ec ?c) - 1" using nz by (rule unat_minus_one)
  define ec1 where "ec1 = ec(?c := ec ?c - 1)"
  define q1 where "q1 = (if ec ?c - 1 = 0 then add ?c q else q)"
  have zero_iff: "(ec ?c - 1 = 0) = (unat (ec ?c) = 1)"
  proof
    assume "ec ?c - 1 = 0"
    then have "unat (ec ?c - 1) = 0" by simp
    then show "unat (ec ?c) = 1" using um ge1 by linarith
  next
    assume "unat (ec ?c) = 1"
    then have "unat (ec ?c - 1) = 0" using um by simp
    then show "ec ?c - 1 = 0" by (metis unat_eq_zero)
  qed
  have step: "decrement_children add (l # ls) (ec, q) = decrement_children add ls (ec1, q1)"
    using cv unfolding ec1_def q1_def by (simp add: Let_def hb_map_set_def hb_map_get_def)
  have u1: "unat (ec1 v) = (if v = ?c then unat (ec v) - 1 else unat (ec v))" for v
    by (simp add: ec1_def um)
  have nu: "\<forall>v. count_list ?T v \<le> unat (ec1 v)"
  proof
    fix v show "count_list ?T v \<le> unat (ec1 v)"
      using Cons.prems(1)[rule_format, of v] ge1 by (cases "v = ?c") (simp_all add: u1)
  qed
  have iv: "INVALID \<notin> objidx ` set ls" using Cons.prems(2) by auto
  from Cons.IH[OF nu iv, of q1] obtain ec' q' where
    r: "decrement_children add ls (ec1, q1) = (ec', q')"
    and e: "\<forall>v. unat (ec' v) = unat (ec1 v) - count_list ?T v"
    and s: "set q' = set q1 \<union> {c \<in> objidx ` set ls. unat (ec1 c) = count_list ?T c}"
    and d: "distinct q1 \<and> (\<forall>c \<in> objidx ` set ls. unat (ec1 c) = count_list ?T c \<longrightarrow> c \<notin> set q1)
           \<longrightarrow> distinct q'"
    by blast
  have q1_push: "q1 = add ?c q" if "unat (ec ?c) = 1"
  proof -
    have "ec ?c - 1 = 0" using that zero_iff by blast
    then show ?thesis unfolding q1_def by (simp only: if_True refl)
  qed
  have q1_keep: "q1 = q" if "unat (ec ?c) \<noteq> 1"
  proof -
    have "\<not> (ec ?c - 1 = 0)" using that zero_iff by blast
    then show ?thesis unfolding q1_def by (simp only: if_False refl)
  qed
  have sq1: "set q1 = (if unat (ec ?c) = 1 then insert ?c (set q) else set q)"
    using q1_push q1_keep add_set[OF cv] by (cases "unat (ec ?c) = 1") simp_all
  have notin: "unat (ec ?c) = 1 \<Longrightarrow> ?c \<notin> objidx ` set ls"
  proof
    assume a: "unat (ec ?c) = 1" and "?c \<in> objidx ` set ls"
    then have "?c \<in> set ?T" by simp
    then have "count_list ?T ?c \<noteq> 0" by (simp add: count_list_0_iff)
    then show False using ge1 a by linarith
  qed
  have E: "\<forall>v. unat (ec' v) = unat (ec v) - count_list (map objidx (l # ls)) v"
    using e by (simp add: u1)
  have eqc: "(unat (ec1 c) = count_list ?T c) = (unat (ec c) = count_list (map objidx (l # ls)) c)"
    if "c \<in> objidx ` set ls" for c
  proof (cases "c = ?c")
    case True
    then show ?thesis using ge1 by (simp add: u1) linarith
  next
    case False
    then show ?thesis by (simp add: u1)
  qed
  have S: "set q' = set q \<union> {c \<in> objidx ` set (l # ls). unat (ec c) = count_list (map objidx (l # ls)) c}"
  proof (cases "unat (ec ?c) = 1")
    case True
    have c0: "count_list ?T ?c = 0" using notin[OF True] by (simp add: count_list_0_iff)
    have "{c \<in> objidx ` set (l # ls). unat (ec c) = count_list (map objidx (l # ls)) c}
          = insert ?c {c \<in> objidx ` set ls. unat (ec1 c) = count_list ?T c}"
    proof (intro set_eqI iffI)
      fix c assume a: "c \<in> {c \<in> objidx ` set (l # ls). unat (ec c) = count_list (map objidx (l # ls)) c}"
      show "c \<in> insert ?c {c \<in> objidx ` set ls. unat (ec1 c) = count_list ?T c}"
      proof (cases "c \<in> objidx ` set ls")
        case True
        have "unat (ec c) = count_list (map objidx (l # ls)) c" using a by blast
        then have "unat (ec1 c) = count_list ?T c" using eqc[OF True] by blast
        then show ?thesis using True by blast
      next
        case False
        then have "c = ?c" using a by auto
        then show ?thesis by blast
      qed
    next
      fix c assume a: "c \<in> insert ?c {c \<in> objidx ` set ls. unat (ec1 c) = count_list ?T c}"
      show "c \<in> {c \<in> objidx ` set (l # ls). unat (ec c) = count_list (map objidx (l # ls)) c}"
      proof (cases "c = ?c")
        case True
        then show ?thesis using \<open>unat (ec ?c) = 1\<close> c0 by simp
      next
        case False
        then have c1: "c \<in> objidx ` set ls" and c2: "unat (ec1 c) = count_list ?T c" using a by auto
        have "unat (ec c) = count_list (map objidx (l # ls)) c" using eqc[OF c1] c2 by blast
        moreover have "c \<in> objidx ` set (l # ls)" using c1 by auto
        ultimately show ?thesis by blast
      qed
    qed
    then show ?thesis using s sq1 True by simp
  next
    case False
    have "{c \<in> objidx ` set (l # ls). unat (ec c) = count_list (map objidx (l # ls)) c}
          = {c \<in> objidx ` set ls. unat (ec1 c) = count_list ?T c}"
    proof (intro set_eqI iffI)
      fix c assume a: "c \<in> {c \<in> objidx ` set (l # ls). unat (ec c) = count_list (map objidx (l # ls)) c}"
      show "c \<in> {c \<in> objidx ` set ls. unat (ec1 c) = count_list ?T c}"
      proof (cases "c \<in> objidx ` set ls")
        case True
        have "unat (ec c) = count_list (map objidx (l # ls)) c" using a by blast
        then have "unat (ec1 c) = count_list ?T c" using eqc[OF True] by blast
        then show ?thesis using True by blast
      next
        case False
        then have "c = ?c" "count_list ?T ?c = 0" using a by (auto simp: count_list_0_iff)
        then have "unat (ec ?c) = 1" using a by simp
        then show ?thesis using \<open>unat (ec ?c) \<noteq> 1\<close> by simp
      qed
    next
      fix c assume "c \<in> {c \<in> objidx ` set ls. unat (ec1 c) = count_list ?T c}"
      then have c1: "c \<in> objidx ` set ls" and c2: "unat (ec1 c) = count_list ?T c" by auto
      have "unat (ec c) = count_list (map objidx (l # ls)) c" using eqc[OF c1] c2 by blast
      moreover have "c \<in> objidx ` set (l # ls)" using c1 by auto
      ultimately show "c \<in> {c \<in> objidx ` set (l # ls). unat (ec c) = count_list (map objidx (l # ls)) c}"
        by blast
    qed
    then show ?thesis using s sq1 False by simp
  qed
  have D: "distinct q'"
    if dq: "distinct q"
    and fresh: "\<forall>c \<in> objidx ` set (l # ls). unat (ec c) = count_list (map objidx (l # ls)) c \<longrightarrow> c \<notin> set q"
  proof -
    have dq1: "distinct q1"
    proof (cases "unat (ec ?c) = 1")
      case True
      have "count_list ?T ?c = 0" using notin[OF True] by (simp add: count_list_0_iff)
      then have "?c \<notin> set q" using fresh True by simp
      then show ?thesis using q1_push[OF True] dq cv by (simp add: add_distinct)
    next
      case False
      then show ?thesis using dq q1_keep by simp
    qed
    have "\<forall>c \<in> objidx ` set ls. unat (ec1 c) = count_list ?T c \<longrightarrow> c \<notin> set q1"
    proof (intro ballI impI)
      fix c assume c: "c \<in> objidx ` set ls" and u: "unat (ec1 c) = count_list ?T c"
      have "unat (ec c) = count_list (map objidx (l # ls)) c" using eqc[OF c] u by blast
      moreover have "c \<in> objidx ` set (l # ls)" using c by auto
      ultimately have nq: "c \<notin> set q" using fresh by blast
      show "c \<notin> set q1"
      proof (cases "unat (ec ?c) = 1")
        case True
        have "?c \<notin> objidx ` set ls" using True by (rule notin)
        then have "c \<noteq> ?c" using c by blast
        then show ?thesis using nq sq1 by simp
      next
        case False
        then show ?thesis using nq sq1 by simp
      qed
    qed
    then show ?thesis using d dq1 by blast
  qed
  have R: "decrement_children add (l # ls) (ec, q) = (ec', q')" using step r by (rule trans)
  have D': "distinct q \<and> (\<forall>c \<in> objidx ` set (l # ls).
              unat (ec c) = count_list (map objidx (l # ls)) c \<longrightarrow> c \<notin> set q) \<longrightarrow> distinct q'"
  proof
    assume a: "distinct q \<and> (\<forall>c \<in> objidx ` set (l # ls).
              unat (ec c) = count_list (map objidx (l # ls)) c \<longrightarrow> c \<notin> set q)"
    show "distinct q'" using a[THEN conjunct1] a[THEN conjunct2] by (rule D)
  qed
  show ?case
    by (intro exI[of _ ec'] exI[of _ q'] conjI R E S D')
qed

section \<open>The invariant of the two sorting loops\<close>

lemma reachable_child:
  "reachable objs p \<Longrightarrow> p \<in> nodes objs \<Longrightarrow> c \<in> set (children objs p) \<Longrightarrow> reachable objs c"
  unfolding reachable_def by (rule rtrancl_into_rtrancl) (simp_all add: edges_def)

lemma visit_inv:
  assumes wf: "well_formed objs"
    and hr: "no_link_to_root objs"
    and add_set: "\<And>x q. x \<noteq> INVALID \<Longrightarrow> set (add x q) = insert x (set q)"
    and add_distinct: "\<And>x q. x \<noteq> INVALID \<Longrightarrow> distinct q \<Longrightarrow> x \<notin> set q \<Longrightarrow> distinct (add x q)"
    and inv: "sort_inv objs dn s"
    and nx: "nxt \<in> set (queue s)"
    and rest: "set rest = set (queue s) - {nxt}"
    and drest: "distinct rest"
  shows "sort_inv objs (dn @ [nxt]) (visit add objs nxt rest s)"
proof -
  have n: "length objs < 2 ^ 32" using wf by (rule well_formed_length)
  note I = inv[unfolded sort_inv_def]
  have i1d: "distinct (dn @ queue s)" and i1s: "set (dn @ queue s) \<subseteq> nodes objs"
    and i2: "sorted_graph s = map (vec_get objs) dn"
    and i3: "new_id s = root objs - of_nat (length dn)"
    and i4: "\<forall>k < length dn. id_map s (dn ! k) = root objs - of_nat k"
    and i4': "\<forall>v. v \<notin> set dn \<longrightarrow> id_map s v = INVALID"
    and i5: "\<forall>v \<in> nodes objs.
            unat (edge_count s v) + links_from objs (set dn) v = links_from objs (nodes objs) v"
    and i6: "\<forall>v \<in> set (dn @ queue s). v \<noteq> root objs \<longrightarrow> edge_count s v = 0"
    and i7: "\<forall>v \<in> set (dn @ queue s). reachable objs v"
    and i8: "\<forall>k < length dn. dn ! k \<noteq> root objs \<longrightarrow>
            (\<forall>p \<in> nodes objs. dn ! k \<in> set (children objs p) \<longrightarrow> p \<in> set (take k dn))"
    and i10: "\<forall>v \<in> nodes objs. v \<noteq> root objs \<and> edge_count s v = 0
            \<and> 0 < links_from objs (nodes objs) v \<longrightarrow> v \<in> set (dn @ queue s)"
    and i11: "(dn = [] \<and> queue s = [root objs]) \<or> (dn \<noteq> [] \<and> hd dn = root objs)"
    using I by blast+
  have nxn: "nxt \<in> nodes objs" using nx i1s by auto
  have nxd: "nxt \<notin> set dn" using nx i1d by auto
  have nxr: "reachable objs nxt" using nx i7 by auto
  have nxi: "nxt \<noteq> INVALID" using n nxn by (rule node_not_INVALID)
  define ls where "ls = links (vec_get objs nxt)"
  have ch: "children objs nxt = map objidx ls" by (simp add: children_def ls_def)
  have chn: "c \<in> nodes objs" if "c \<in> set (children objs nxt)" for c
    using wf nxn that by (rule children_nodes)
  have sub: "insert nxt (set dn) \<subseteq> nodes objs" using nxn i1s by auto
  have ins: "links_from objs (insert nxt (set dn)) v
             = count_list (children objs nxt) v + links_from objs (set dn) v" for v
    using nxd by (rule links_from_insert)
  have under: "\<forall>v. count_list (map objidx ls) v \<le> unat (edge_count s v)"
  proof
    fix v
    show "count_list (map objidx ls) v \<le> unat (edge_count s v)"
    proof (cases "v \<in> nodes objs")
      case True
      have "links_from objs (insert nxt (set dn)) v \<le> links_from objs (nodes objs) v"
        using sub by (rule links_from_mono)
      then show ?thesis using i5[rule_format, OF True] ins[of v] unfolding ch by linarith
    next
      case False
      then have "v \<notin> set (children objs nxt)" using chn by blast
      then show ?thesis by (simp add: ch[symmetric] count_list_0_iff)
    qed
  qed
  have inval: "INVALID \<notin> objidx ` set ls"
  proof
    assume "INVALID \<in> objidx ` set ls"
    then have "INVALID \<in> set (children objs nxt)" by (simp add: ch)
    then have "INVALID \<in> nodes objs" by (rule chn)
    then show False using node_not_INVALID[OF n] by blast
  qed
  from decrement_children_spec[of add ls "edge_count s" rest, OF add_set add_distinct under inval]
  obtain ec' q' where
    dc: "decrement_children add ls (edge_count s, rest) = (ec', q')"
    and ecu: "\<forall>v. unat (ec' v) = unat (edge_count s v) - count_list (map objidx ls) v"
    and sq: "set q' = set rest \<union> {c \<in> objidx ` set ls. unat (edge_count s c) = count_list (map objidx ls) c}"
    and dq: "distinct rest \<and> (\<forall>c \<in> objidx ` set ls. unat (edge_count s c) = count_list (map objidx ls) c
               \<longrightarrow> c \<notin> set rest) \<longrightarrow> distinct q'"
    by blast
  define pushed where "pushed = {c \<in> objidx ` set ls. unat (edge_count s c) = count_list (map objidx ls) c}"
  have sq': "set q' = set rest \<union> pushed" using sq by (simp add: pushed_def)
  have pushed_child: "c \<in> set (children objs nxt)" if "c \<in> pushed" for c
    using that by (auto simp: pushed_def ch)
  have pushed_cnt: "unat (edge_count s c) = count_list (children objs nxt) c" if "c \<in> pushed" for c
    using that by (simp add: pushed_def ch)
  have pushed_new: "c \<notin> set (dn @ queue s)" if c: "c \<in> pushed" for c
  proof
    assume m: "c \<in> set (dn @ queue s)"
    have pc: "c \<in> set (children objs nxt)" using c by (rule pushed_child)
    then have "count_list (children objs nxt) c \<noteq> 0" by (simp add: count_list_0_iff)
    then have "unat (edge_count s c) \<noteq> 0" using pushed_cnt[OF c] by simp
    then have "edge_count s c \<noteq> 0" by (metis unat_0)
    then have "c = root objs" using i6 m by blast
    then show False using hr nxr pc by (auto simp: no_link_to_root_def)
  qed
  have vs: "visit add objs nxt rest s =
      \<lparr>queue = q', sorted_graph = sorted_graph s @ [vec_get objs nxt],
       id_map = hb_map_set (id_map s) nxt (new_id s), edge_count = ec', new_id = new_id s - 1\<rparr>"
    using dc by (simp add: visit_def Let_def ls_def)
  have dq': "distinct q'"
  proof -
    have "\<forall>c \<in> objidx ` set ls. unat (edge_count s c) = count_list (map objidx ls) c \<longrightarrow> c \<notin> set rest"
    proof (intro ballI impI)
      fix c assume "c \<in> objidx ` set ls" "unat (edge_count s c) = count_list (map objidx ls) c"
      then have "c \<in> pushed" by (simp add: pushed_def)
      then have "c \<notin> set (dn @ queue s)" by (rule pushed_new)
      then show "c \<notin> set rest" using rest by auto
    qed
    then show ?thesis using dq drest by blast
  qed
  have setq: "set (dn @ queue s) = insert nxt (set dn \<union> set rest)" using rest nx by auto
  have eczero: "ec' v = 0" if "edge_count s v = 0" for v
  proof -
    have "unat (ec' v) = 0" using ecu[rule_format, of v] that by simp
    then show ?thesis by (metis unat_eq_zero)
  qed
  have J1d: "distinct ((dn @ [nxt]) @ q')"
  proof -
    have "set q' \<inter> insert nxt (set dn) = {}"
    proof -
      have "set rest \<inter> insert nxt (set dn) = {}" using rest i1d by auto
      moreover have "pushed \<inter> insert nxt (set dn) = {}" using pushed_new setq by auto
      ultimately show ?thesis using sq' by auto
    qed
    moreover have "distinct (dn @ [nxt])" using i1d nxd by simp
    ultimately show ?thesis using dq' by auto
  qed
  have J1s: "set ((dn @ [nxt]) @ q') \<subseteq> nodes objs"
  proof -
    have "pushed \<subseteq> nodes objs" using pushed_child chn by blast
    moreover have "set rest \<subseteq> nodes objs" using rest i1s by auto
    ultimately show ?thesis using sq' sub by auto
  qed
  have J3: "new_id s - 1 = root objs - of_nat (length (dn @ [nxt]))" by (simp add: i3)
  have J4: "\<forall>k < length (dn @ [nxt]). hb_map_set (id_map s) nxt (new_id s) ((dn @ [nxt]) ! k) = root objs - of_nat k"
  proof (intro allI impI)
    fix k assume k: "k < length (dn @ [nxt])"
    show "hb_map_set (id_map s) nxt (new_id s) ((dn @ [nxt]) ! k) = root objs - of_nat k"
    proof (cases "k < length dn")
      case True
      then have "dn ! k \<noteq> nxt" using nxd by (metis nth_mem)
      then show ?thesis using True i4 nxi by (simp add: hb_map_set_def nth_append)
    next
      case False
      then have "k = length dn" using k by simp
      then show ?thesis using nxi i3 by (simp add: hb_map_set_def)
    qed
  qed
  have J4': "\<forall>v. v \<notin> set (dn @ [nxt]) \<longrightarrow> hb_map_set (id_map s) nxt (new_id s) v = INVALID"
    using i4' by (simp add: hb_map_set_def)
  have J5: "\<forall>v \<in> nodes objs. unat (ec' v) + links_from objs (set (dn @ [nxt])) v = links_from objs (nodes objs) v"
  proof
    fix v assume v: "v \<in> nodes objs"
    have "set (dn @ [nxt]) = insert nxt (set dn)" by simp
    then have "links_from objs (set (dn @ [nxt])) v = count_list (children objs nxt) v + links_from objs (set dn) v"
      using ins[of v] by simp
    then show "unat (ec' v) + links_from objs (set (dn @ [nxt])) v = links_from objs (nodes objs) v"
      using ecu[rule_format, of v] under[rule_format, of v] i5[rule_format, OF v] ch by simp
  qed
  have J6: "\<forall>v \<in> set ((dn @ [nxt]) @ q'). v \<noteq> root objs \<longrightarrow> ec' v = 0"
  proof (intro ballI impI)
    fix v assume v: "v \<in> set ((dn @ [nxt]) @ q')" and vr: "v \<noteq> root objs"
    show "ec' v = 0"
    proof (cases "v \<in> pushed")
      case True
      have "unat (ec' v) = 0" using ecu[rule_format, of v] pushed_cnt[OF True] ch by simp
      then show ?thesis by (metis unat_eq_zero)
    next
      case False
      then have "v \<in> set (dn @ queue s)" using v sq' setq by auto
      then have "edge_count s v = 0" using i6 vr by blast
      then show ?thesis by (rule eczero)
    qed
  qed
  have J7: "\<forall>v \<in> set ((dn @ [nxt]) @ q'). reachable objs v"
  proof
    fix v assume v: "v \<in> set ((dn @ [nxt]) @ q')"
    show "reachable objs v"
    proof (cases "v \<in> pushed")
      case True
      then show ?thesis using reachable_child[OF nxr nxn] pushed_child by blast
    next
      case False
      then have "v \<in> set (dn @ queue s)" using v sq' setq by auto
      then show ?thesis using i7 by blast
    qed
  qed
  have J8: "\<forall>k < length (dn @ [nxt]). (dn @ [nxt]) ! k \<noteq> root objs \<longrightarrow>
            (\<forall>p \<in> nodes objs. (dn @ [nxt]) ! k \<in> set (children objs p) \<longrightarrow> p \<in> set (take k (dn @ [nxt])))"
  proof (intro allI impI ballI)
    fix k p assume k: "k < length (dn @ [nxt])" and nr: "(dn @ [nxt]) ! k \<noteq> root objs"
      and p: "p \<in> nodes objs" and c: "(dn @ [nxt]) ! k \<in> set (children objs p)"
    show "p \<in> set (take k (dn @ [nxt]))"
    proof (cases "k < length dn")
      case True
      then show ?thesis using i8 nr p c by (simp add: nth_append)
    next
      case False
      then have kl: "k = length dn" using k by simp
      then have e: "(dn @ [nxt]) ! k = nxt" by simp
      have "edge_count s nxt = 0" using i6 nx nr e by auto
      then have "links_from objs (set dn) nxt = links_from objs (nodes objs) nxt"
        using i5[rule_format, OF nxn] by simp
      moreover have "set dn \<subseteq> nodes objs" using i1s by auto
      ultimately have "p \<notin> nodes objs - set dn"
        using links_from_full[of objs "set dn" nxt "nodes objs" p] c e by auto
      then show ?thesis using p kl by simp
    qed
  qed
  have J10: "\<forall>v \<in> nodes objs. v \<noteq> root objs \<and> ec' v = 0 \<and> 0 < links_from objs (nodes objs) v
              \<longrightarrow> v \<in> set ((dn @ [nxt]) @ q')"
  proof (intro ballI impI)
    fix v assume v: "v \<in> nodes objs"
      and a: "v \<noteq> root objs \<and> ec' v = 0 \<and> 0 < links_from objs (nodes objs) v"
    have z: "unat (edge_count s v) = count_list (map objidx ls) v"
      using ecu[rule_format, of v] under[rule_format, of v] a by simp
    show "v \<in> set ((dn @ [nxt]) @ q')"
    proof (cases "edge_count s v = 0")
      case True
      then have "v \<in> set (dn @ queue s)" using i10 v a by blast
      then show ?thesis using setq sq' by auto
    next
      case False
      then have "unat (edge_count s v) \<noteq> 0" by (metis unat_eq_zero)
      then have "count_list (map objidx ls) v \<noteq> 0" using z by simp
      then have "v \<in> objidx ` set ls" by (simp add: count_list_0_iff)
      then have "v \<in> pushed" using z by (simp add: pushed_def)
      then show ?thesis using sq' by simp
    qed
  qed
  have J11: "hd (dn @ [nxt]) = root objs"
    using i11 nx by (cases dn) auto
  show ?thesis
    unfolding sort_inv_def vs
    using J1d J1s i2 J3 J4 J4' J5 J6 J7 J8 J10 J11 by simp
qed

lemma sort_inv_initial:
  assumes wf: "well_formed objs" and n1: "0 < length objs"
  shows "sort_inv objs [] (initial_state objs)"
proof -
  have n: "length objs < 2 ^ 32" using wf by (rule well_formed_length)
  have rn: "root objs \<in> nodes objs" using n1 n by (rule root_node)
  have q: "queue (initial_state objs) = [root objs]" by (simp add: initial_state_def root_def)
  have e: "edge_count (initial_state objs) = incoming_edge_count objs" by (simp add: initial_state_def)
  have i5: "\<forall>v \<in> nodes objs. unat (edge_count (initial_state objs) v) + links_from objs (set []) v
              = links_from objs (nodes objs) v"
    using incoming_edge_count_node[OF wf] by (simp add: e links_from_def)
  have i10: "\<forall>v \<in> nodes objs. v \<noteq> root objs \<and> edge_count (initial_state objs) v = 0
            \<and> 0 < links_from objs (nodes objs) v \<longrightarrow> v \<in> set ([] @ queue (initial_state objs))"
  proof (intro ballI impI)
    fix v assume v: "v \<in> nodes objs"
      and a: "v \<noteq> root objs \<and> edge_count (initial_state objs) v = 0 \<and> 0 < links_from objs (nodes objs) v"
    have "unat (incoming_edge_count objs v) = links_from objs (nodes objs) v"
      using wf v by (rule incoming_edge_count_node)
    then have False using a by (simp add: e)
    then show "v \<in> set ([] @ queue (initial_state objs))" ..
  qed
  have r: "reachable objs (root objs)" by (simp add: reachable_def)
  show ?thesis
    unfolding sort_inv_def
    using rn i5 i10 r q
    by (simp add: initial_state_def hb_map_empty_def root_def)
qed

lemma sort_inv_length:
  assumes n: "length objs < 2 ^ 32" and inv: "sort_inv objs dn s"
  shows "length dn + length (queue s) \<le> length objs"
proof -
  have d: "distinct (dn @ queue s)" and s: "set (dn @ queue s) \<subseteq> nodes objs"
    using inv by (simp_all add: sort_inv_def)
  have "length (dn @ queue s) = card (set (dn @ queue s))" using d by (rule distinct_card[symmetric])
  also have "\<dots> \<le> card (nodes objs)" using s by (intro card_mono) simp_all
  also have "\<dots> = length objs" using n by (rule card_nodes)
  finally show ?thesis by simp
qed

lemma kahn_loop_total:
  assumes wf: "well_formed objs" and hr: "no_link_to_root objs"
  shows "sort_inv objs dn s \<Longrightarrow>
         \<exists>dn' s'. kahn_loop objs s = Some s' \<and> sort_inv objs dn' s' \<and> queue s' = []"
proof (induction "length objs - length dn" arbitrary: dn s rule: less_induct)
  case less
  have n: "length objs < 2 ^ 32" using wf by (rule well_formed_length)
  show ?case
  proof (cases "queue s")
    case Nil
    then have "kahn_loop objs s = Some s" by (subst kahn_loop.simps) simp
    then show ?thesis using less.prems Nil by blast
  next
    case (Cons nxt rest)
    let ?s = "visit (\<lambda>x q. q @ [x]) objs nxt rest s"
    have d: "distinct (queue s)" using less.prems by (simp add: sort_inv_def)
    have inv': "sort_inv objs (dn @ [nxt]) ?s"
      using wf hr _ _ less.prems
    proof (rule visit_inv)
      show "nxt \<in> set (queue s)" using Cons by simp
      show "set rest = set (queue s) - {nxt}" using Cons d by auto
      show "distinct rest" using Cons d by simp
    qed simp_all
    have "length dn + length (queue s) \<le> length objs" using n less.prems by (rule sort_inv_length)
    then have m: "length objs - length (dn @ [nxt]) < length objs - length dn" using Cons by simp
    from less.hyps[OF m inv'] obtain dn' s' where
      r: "kahn_loop objs ?s = Some s'" "sort_inv objs dn' s'" "queue s' = []" by blast
    have "kahn_loop objs s = kahn_loop objs ?s" using Cons by (subst kahn_loop.simps) simp
    then show ?thesis using r by auto
  qed
qed

lemma hb_set_add_set: "x \<noteq> INVALID \<Longrightarrow> set (hb_set_add x q) = insert x (set q)"
  by (auto simp: hb_set_add_def set_insort_key)

lemma hb_set_add_distinct: "distinct q \<Longrightarrow> distinct (hb_set_add x q)"
  by (simp add: hb_set_add_def distinct_insort)

lemma closest_object_error: "closest_object q d = Inl e \<Longrightarrow> e = GraphStructureError"
  by (auto simp: closest_object_def split: prod.splits if_splits)

lemma distance_loop_total:
  assumes wf: "well_formed objs" and hr: "no_link_to_root objs"
  shows "sort_inv objs dn s \<Longrightarrow>
         distance_loop objs d s = Some (Inl GraphStructureError)
         \<or> (\<exists>dn' s'. distance_loop objs d s = Some (Inr s') \<and> sort_inv objs dn' s' \<and> queue s' = [])"
proof (induction "length objs - length dn" arbitrary: dn s rule: less_induct)
  case less
  have n: "length objs < 2 ^ 32" using wf by (rule well_formed_length)
  show ?case
  proof (cases "queue s = []")
    case True
    then have "distance_loop objs d s = Some (Inr s)" by (subst distance_loop.simps) simp
    then show ?thesis using less.prems True by blast
  next
    case False
    show ?thesis
    proof (cases "closest_object (queue s) d")
      case (Inl e)
      then have "e = GraphStructureError" by (rule closest_object_error)
      then have "distance_loop objs d s = Some (Inl GraphStructureError)"
        using False Inl by (subst distance_loop.simps) simp
      then show ?thesis by blast
    next
      case (Inr nxt)
      let ?rest = "hb_set_del nxt (queue s)"
      let ?s = "visit hb_set_add objs nxt ?rest s"
      have nx: "nxt \<in> set (queue s)" using Inr by (rule closest_object_member)
      have dq: "distinct (queue s)" using less.prems by (simp add: sort_inv_def)
      have inv': "sort_inv objs (dn @ [nxt]) ?s"
        using wf hr _ _ less.prems nx
      proof (rule visit_inv)
        show "set ?rest = set (queue s) - {nxt}" by (auto simp: hb_set_del_def)
        show "distinct ?rest" using dq by (simp add: hb_set_del_def distinct_removeAll)
      qed (simp_all add: hb_set_add_set hb_set_add_distinct)
      have "length dn + length (queue s) \<le> length objs" using n less.prems by (rule sort_inv_length)
      moreover have "queue s \<noteq> []" using False .
      ultimately have m: "length objs - length (dn @ [nxt]) < length objs - length dn"
        by (cases "queue s") simp_all
      have e: "distance_loop objs d s = distance_loop objs d ?s"
        using False Inr by (subst distance_loop.simps) simp
      from less.hyps[OF m inv'] show ?thesis unfolding e .
    qed
  qed
qed

section \<open>The end of a sort\<close>

lemma sort_invD:
  assumes "sort_inv objs dn s"
  shows "distinct (dn @ queue s)" and "set (dn @ queue s) \<subseteq> nodes objs"
    and "sorted_graph s = map (vec_get objs) dn"
    and "new_id s = root objs - of_nat (length dn)"
    and "\<forall>k < length dn. id_map s (dn ! k) = root objs - of_nat k"
    and "\<forall>v. v \<notin> set dn \<longrightarrow> id_map s v = INVALID"
    and "\<forall>v \<in> nodes objs.
            unat (edge_count s v) + links_from objs (set dn) v = links_from objs (nodes objs) v"
    and "\<forall>v \<in> set (dn @ queue s). v \<noteq> root objs \<longrightarrow> edge_count s v = 0"
    and "\<forall>v \<in> set (dn @ queue s). reachable objs v"
    and "\<forall>k < length dn. dn ! k \<noteq> root objs \<longrightarrow>
            (\<forall>p \<in> nodes objs. dn ! k \<in> set (children objs p) \<longrightarrow> p \<in> set (take k dn))"
    and "\<forall>v \<in> nodes objs. v \<noteq> root objs \<and> edge_count s v = 0
            \<and> 0 < links_from objs (nodes objs) v \<longrightarrow> v \<in> set (dn @ queue s)"
    and "(dn = [] \<and> queue s = [root objs]) \<or> (dn \<noteq> [] \<and> hd dn = root objs)"
  using assms unfolding sort_inv_def by blast+

lemma ne_INVALID: "unat x \<noteq> 4294967295 \<Longrightarrow> x \<noteq> INVALID"
  using unat_INVALID by auto

lemma new_index:
  assumes n1: "0 < length objs" and n: "length objs < 2 ^ 32" and k: "k < length objs"
  shows "root objs - of_nat k = of_nat (length objs - 1 - k)"
    and "unat (root objs - of_nat k) = length objs - 1 - k"
proof -
  have "(length objs - 1 - k) + k + 1 = length objs" using k by simp
  then have "(of_nat (length objs) :: 32 word) = of_nat ((length objs - 1 - k) + k + 1)" by simp
  also have "\<dots> = of_nat (length objs - 1 - k) + of_nat k + 1" by simp
  finally show e: "root objs - of_nat k = of_nat (length objs - 1 - k)" by (simp add: root_def)
  have "length objs - 1 - k < 2 ^ 32" using n by simp
  then show "unat (root objs - of_nat k) = length objs - 1 - k"
    unfolding e by (rule unat_of_nat32)
qed

lemma remap_links_ok:
  "\<forall>l \<in> set ls. m (objidx l) \<noteq> INVALID \<Longrightarrow>
   remap_links m ls = Inr (map (\<lambda>l. l\<lparr>objidx := m (objidx l)\<rparr>) ls)"
  by (induction ls) (simp_all add: hb_map_has_def hb_map_get_def)

lemma remap_obj_indices_ok:
  "\<forall>ob \<in> set obs. \<forall>l \<in> set (links ob). m (objidx l) \<noteq> INVALID \<Longrightarrow>
   remap_obj_indices m obs = Inr (map (remap_object m) obs)"
  by (induction obs) (simp_all add: remap_links_ok remap_object_def)

lemma sort_inv_all:
  assumes n: "length objs < 2 ^ 32" and inv: "sort_inv objs dn s" and l: "length dn = length objs"
  shows "set dn = nodes objs"
proof -
  have d: "distinct dn" and s: "set dn \<subseteq> nodes objs"
    using sort_invD(1,2)[OF inv] by simp_all
  have "card (set dn) = length dn" using d by (rule distinct_card)
  then have "card (set dn) = card (nodes objs)" using l card_nodes[OF n] by simp
  then show ?thesis using s by (intro card_subset_eq) simp_all
qed

lemma id_map_node:
  assumes n1: "0 < length objs" and n: "length objs < 2 ^ 32"
    and inv: "sort_inv objs dn s" and v: "v \<in> set dn"
  shows "\<exists>k < length dn. dn ! k = v \<and> id_map s v = of_nat (length objs - 1 - k)
            \<and> unat (id_map s v) = length objs - 1 - k"
proof -
  from v obtain k where k: "k < length dn" "dn ! k = v" by (auto simp: in_set_conv_nth)
  have "length dn + length (queue s) \<le> length objs" using n inv by (rule sort_inv_length)
  then have kn: "k < length objs" using k by simp
  have "id_map s (dn ! k) = root objs - of_nat k" using sort_invD(5)[OF inv] k(1) by blast
  then have "id_map s v = root objs - of_nat k" using k(2) by simp
  then show ?thesis using k new_index[OF n1 n kn] by auto
qed

lemma finish_sort_complete:
  assumes wf: "well_formed objs" and n1: "0 < length objs"
    and inv: "sort_inv objs dn s" and l: "length dn = length objs"
  shows "finish_sort g s = Inr (g\<lparr>objects := rev (map (remap_object (id_map s)) (map (vec_get objs) dn))\<rparr>)"
proof -
  have n: "length objs < 2 ^ 32" using wf by (rule well_formed_length)
  have all: "set dn = nodes objs" using n inv l by (rule sort_inv_all)
  have "new_id s = root objs - of_nat (length objs)" using sort_invD(4)[OF inv] l by simp
  then have ni: "new_id s = - 1" by (simp add: root_def)
  have ok: "\<forall>ob \<in> set (sorted_graph s). \<forall>l \<in> set (links ob). id_map s (objidx l) \<noteq> INVALID"
  proof (intro ballI)
    fix ob l assume ob: "ob \<in> set (sorted_graph s)" and l: "l \<in> set (links ob)"
    have "sorted_graph s = map (vec_get objs) dn" by (rule sort_invD(3)[OF inv])
    then obtain p where p: "p \<in> set dn" "ob = vec_get objs p" using ob by auto
    then have "objidx l \<in> set (children objs p)" using l by (simp add: children_def)
    then have "objidx l \<in> nodes objs" using wf p(1) all children_nodes by blast
    then have "objidx l \<in> set dn" using all by simp
    from id_map_node[OF n1 n inv this] obtain k where
      "k < length dn" "unat (id_map s (objidx l)) = length objs - 1 - k" by blast
    then have "unat (id_map s (objidx l)) \<noteq> 4294967295" using n by simp
    then show "id_map s (objidx l) \<noteq> INVALID" by (rule ne_INVALID)
  qed
  have sg: "sorted_graph s = map (vec_get objs) dn" by (rule sort_invD(3)[OF inv])
  show ?thesis
    using remap_obj_indices_ok[OF ok] by (simp add: finish_sort_def ni sg)
qed

lemma finish_sort_incomplete:
  assumes n: "length objs < 2 ^ 32" and n1: "0 < length objs"
    and inv: "sort_inv objs dn s" and l: "length dn < length objs"
  shows "finish_sort g s = Inl GraphStructureError"
proof -
  have "new_id s = root objs - of_nat (length dn)" by (rule sort_invD(4)[OF inv])
  then have "unat (new_id s) = length objs - 1 - length dn" using new_index(2)[OF n1 n l] by simp
  then have "unat (new_id s) \<noteq> 4294967295" using n by simp
  then have "new_id s \<noteq> INVALID" by (rule ne_INVALID)
  then show ?thesis by (simp add: finish_sort_def INVALID_def)
qed

lemma sort_kahn_run:
  assumes wf: "well_formed (objects g)" and hr: "no_link_to_root (objects g)"
    and n2: "1 < length (objects g)"
  shows "\<exists>dn s. sort_kahn g = Some (finish_sort g s) \<and> sort_inv (objects g) dn s \<and> queue s = []"
proof -
  have n1: "0 < length (objects g)" using n2 by (cases "objects g") simp_all
  have "sort_inv (objects g) [] (initial_state (objects g))"
    using wf n1 by (rule sort_inv_initial)
  from kahn_loop_total[OF wf hr this] obtain dn s where
    r: "kahn_loop (objects g) (initial_state (objects g)) = Some s"
       "sort_inv (objects g) dn s" "queue s = []" by blast
  have "sort_kahn g = Some (finish_sort g s)" using n2 r(1) by (simp add: sort_kahn_def)
  then show ?thesis using r by blast
qed

lemma dijkstra_loop_error:
  "dijkstra_loop objs u d = Inl e \<Longrightarrow> e = GraphStructureError"
proof (induction objs u d rule: dijkstra_loop.induct)
  case (1 objs unvisited distance_to)
  show ?case
  proof (cases "unvisited = []")
    case True
    have "dijkstra_loop objs unvisited distance_to = Inr distance_to"
      by (subst dijkstra_loop.simps) (simp add: True)
    then show ?thesis using "1.prems" by simp
  next
    case False
    show ?thesis
    proof (cases "closest_object unvisited distance_to")
      case (Inl e')
      have "dijkstra_loop objs unvisited distance_to = Inl e'"
        by (subst dijkstra_loop.simps) (simp add: False Inl)
      then have "e = e'" using "1.prems" by simp
      then show ?thesis using closest_object_error[OF Inl] by simp
    next
      case (Inr nxt)
      let ?u = "hb_set_del nxt unvisited"
      let ?d = "relax_links objs ?u (ucast (dist_get distance_to nxt)) (links (vec_get objs nxt)) distance_to"
      have "dijkstra_loop objs unvisited distance_to = dijkstra_loop objs ?u ?d"
        by (subst dijkstra_loop.simps) (simp add: False Inr Let_def)
      then have "dijkstra_loop objs ?u ?d = Inl e" using "1.prems" by simp
      then show ?thesis by (rule "1.IH"[OF False Inr refl refl refl])
    qed
  qed
qed

lemma sort_shortest_distance_run:
  assumes wf: "well_formed (objects g)" and hr: "no_link_to_root (objects g)"
    and n2: "1 < length (objects g)"
  shows "sort_shortest_distance g = Some (Inl GraphStructureError)
       \<or> (\<exists>dn s. sort_shortest_distance g = Some (finish_sort g s)
              \<and> sort_inv (objects g) dn s \<and> queue s = [])"
proof (cases "compute_distances (objects g)")
  case (Inl e)
  then have "e = GraphStructureError" unfolding compute_distances_def Let_def by (rule dijkstra_loop_error)
  then show ?thesis using Inl n2 by (simp add: sort_shortest_distance_def)
next
  case (Inr d)
  have n1: "0 < length (objects g)" using n2 by (cases "objects g") simp_all
  have "sort_inv (objects g) [] (initial_state (objects g))"
    using wf n1 by (rule sort_inv_initial)
  from distance_loop_total[OF wf hr this, of d] show ?thesis
  proof
    assume "distance_loop (objects g) d (initial_state (objects g)) = Some (Inl GraphStructureError)"
    then show ?thesis using Inr n2 by (simp add: sort_shortest_distance_def)
  next
    assume "\<exists>dn' s'. distance_loop (objects g) d (initial_state (objects g)) = Some (Inr s')
              \<and> sort_inv (objects g) dn' s' \<and> queue s' = []"
    then obtain dn s where r: "distance_loop (objects g) d (initial_state (objects g)) = Some (Inr s)"
      "sort_inv (objects g) dn s" "queue s = []" by blast
    have "sort_shortest_distance g = Some (finish_sort g s)"
      using Inr n2 r(1) by (simp add: sort_shortest_distance_def)
    then show ?thesis using r by blast
  qed
qed

section \<open>Completeness and unreachable objects\<close>

lemma children_non_node: "p \<notin> nodes objs \<Longrightarrow> children objs p = []"
  by (simp add: children_def vec_get_def nodes_def null_object_def)

lemma acyclic_no_link_to_root:
  assumes ac: "acyclic (edges objs)"
  shows "no_link_to_root objs"
  unfolding no_link_to_root_def
proof (intro allI impI notI)
  fix p assume r: "reachable objs p" and c: "root objs \<in> set (children objs p)"
  have "p \<in> nodes objs" using c children_non_node[of p objs] by (cases "p \<in> nodes objs") auto
  then have e: "(p, root objs) \<in> edges objs" using c by (simp add: edges_def)
  have "(root objs, root objs) \<in> (edges objs)\<^sup>+"
    using r[unfolded reachable_def] e by (rule rtrancl_into_trancl1)
  then show False using ac by (simp add: acyclic_def)
qed

lemma links_from_split:
  "P \<subseteq> Q \<Longrightarrow> links_from objs Q v = links_from objs P v + links_from objs (Q - P) v"
proof -
  assume s: "P \<subseteq> Q"
  have "Q = P \<union> (Q - P)" "P \<inter> (Q - P) = {}" using s by auto
  then show ?thesis unfolding links_from_def by (metis finite sum.union_disjoint)
qed

lemma links_from_pos:
  "p \<in> P \<Longrightarrow> v \<in> set (children objs p) \<Longrightarrow> 0 < links_from objs P v"
proof -
  assume p: "p \<in> P" and v: "v \<in> set (children objs p)"
  have "links_from objs {p} v \<le> links_from objs P v" using p by (intro links_from_mono) simp
  moreover have "links_from objs {p} v = count_list (children objs p) v" by (simp add: links_from_def)
  moreover have "count_list (children objs p) v \<noteq> 0" using v by (simp add: count_list_0_iff)
  ultimately show ?thesis by linarith
qed

lemma sort_inv_root_done:
  "sort_inv objs dn s \<Longrightarrow> queue s = [] \<Longrightarrow> dn \<noteq> [] \<and> hd dn = root objs"
  using sort_invD(12)[of objs dn s] by auto

lemma sort_complete:
  assumes wf: "well_formed objs" and ac: "acyclic (edges objs)" and rc: "root_connected objs"
    and inv: "sort_inv objs dn s" and qe: "queue s = []"
  shows "length dn = length objs"
proof (rule ccontr)
  assume ne: "length dn \<noteq> length objs"
  have n: "length objs < 2 ^ 32" using wf by (rule well_formed_length)
  have d: "distinct dn" and sub: "set dn \<subseteq> nodes objs" using sort_invD(1,2)[OF inv] by simp_all
  have "card (set dn) = length dn" using d by (rule distinct_card)
  then have "set dn \<noteq> nodes objs" using ne card_nodes[OF n] by auto
  then obtain x where x: "x \<in> nodes objs - set dn" using sub by auto
  have "wf (edges objs)" using ac by (intro finite_acyclic_wf) simp_all
  then obtain z where z: "z \<in> nodes objs - set dn"
    and zmin: "\<forall>y. (y, z) \<in> edges objs \<longrightarrow> y \<notin> nodes objs - set dn"
    using x by (metis wf_eq_minimal)
  have rd: "root objs \<in> set dn" using sort_inv_root_done[OF inv qe] by (metis hd_in_set)
  then have zr: "z \<noteq> root objs" using z by auto
  have zn: "z \<in> nodes objs" using z by simp
  have "(root objs, z) \<in> (edges objs)\<^sup>*" using rc zn by (simp add: root_connected_def reachable_def)
  then obtain y where "(y, z) \<in> edges objs" using zr by (metis rtranclE)
  then have "y \<in> nodes objs" "z \<in> set (children objs y)" by (simp_all add: edges_def)
  then have pos: "0 < links_from objs (nodes objs) z" by (rule links_from_pos)
  have "links_from objs (nodes objs - set dn) z = 0"
  proof -
    have "\<forall>p \<in> nodes objs - set dn. count_list (children objs p) z = 0"
    proof
      fix p assume p: "p \<in> nodes objs - set dn"
      then have "(p, z) \<notin> edges objs" using zmin by blast
      then have "z \<notin> set (children objs p)" using p by (simp add: edges_def)
      then show "count_list (children objs p) z = 0" by (simp add: count_list_0_iff)
    qed
    then show ?thesis by (simp add: links_from_def)
  qed
  then have "links_from objs (set dn) z = links_from objs (nodes objs) z"
    using links_from_split[OF sub, of objs z] by simp
  then have "unat (edge_count s z) = 0" using sort_invD(7)[OF inv] zn by fastforce
  then have "edge_count s z = 0" by (metis unat_eq_zero)
  then have "z \<in> set (dn @ queue s)" using sort_invD(11)[OF inv] zn zr pos by blast
  then show False using z qe by simp
qed

lemma unreachable_two:
  assumes n: "length objs < 2 ^ 32" and x: "x \<in> nodes objs" and u: "\<not> reachable objs x"
  shows "1 < length objs"
proof -
  have n1: "0 < length objs" using x by (auto simp: nodes_def)
  have r: "root objs \<in> nodes objs" using n1 n by (rule root_node)
  have "reachable objs (root objs)" by (simp add: reachable_def)
  then have "x \<noteq> root objs" using u by auto
  then have "card {x, root objs} = 2" by simp
  moreover have "card {x, root objs} \<le> card (nodes objs)" using x r by (intro card_mono) simp_all
  ultimately show ?thesis using card_nodes[OF n] by simp
qed

lemma sort_kahn_unreachable:
  assumes wf: "well_formed (objects g)" and ac: "acyclic (edges (objects g))"
    and x: "x \<in> nodes (objects g)" and u: "\<not> reachable (objects g) x"
  shows "sort_kahn g = Some (Inl GraphStructureError)"
proof -
  have n: "length (objects g) < 2 ^ 32" using wf by (rule well_formed_length)
  have n2: "1 < length (objects g)" using n x u by (rule unreachable_two)
  then have n1: "0 < length (objects g)" by (cases "objects g") simp_all
  have hr: "no_link_to_root (objects g)" using ac by (rule acyclic_no_link_to_root)
  from sort_kahn_run[OF wf hr n2] obtain dn s where
    r: "sort_kahn g = Some (finish_sort g s)" and inv: "sort_inv (objects g) dn s" by blast
  have d: "distinct dn" and sub: "set dn \<subseteq> nodes (objects g)" using sort_invD(1,2)[OF inv] by simp_all
  have "x \<notin> set dn" using sort_invD(9)[OF inv] u by auto
  then have "set dn \<subset> nodes (objects g)" using sub x by auto
  then have "card (set dn) < card (nodes (objects g))" by (intro psubset_card_mono) simp_all
  then have "length dn < length (objects g)" using distinct_card[OF d] card_nodes[OF n] by simp
  then have "finish_sort g s = Inl GraphStructureError" using n n1 inv by (intro finish_sort_incomplete)
  then show ?thesis using r by simp
qed

section \<open>Distances of unreachable objects\<close>

lemma closest_scan_spec:
  "closest_scan q d (cd, ci) = (cd', ci') \<Longrightarrow>
   (cd' = cd \<and> ci' = ci) \<or> (ci' \<in> set q \<and> cd' = dist_get d ci' \<and> cd' <s cd)"
proof (induction q arbitrary: cd ci)
  case Nil
  then show ?case by simp
next
  case (Cons i q)
  show ?case
  proof (cases "dist_get d i <s cd")
    case True
    then have "closest_scan q d (dist_get d i, i) = (cd', ci')" using Cons.prems by simp
    from Cons.IH[OF this] show ?thesis
    proof
      assume "cd' = dist_get d i \<and> ci' = i"
      then show ?thesis using True by simp
    next
      assume a: "ci' \<in> set q \<and> cd' = dist_get d ci' \<and> cd' <s dist_get d i"
      then have "cd' <s dist_get d i" by blast
      then have "sint cd' < sint (dist_get d i)" by (simp only: word_sless_alt)
      moreover have "sint (dist_get d i) < sint cd" using True by (simp add: word_sless_alt)
      ultimately have "sint cd' < sint cd" by linarith
      then have "cd' <s cd" by (simp add: word_sless_alt)
      then show ?thesis using a by simp
    qed
  next
    case False
    then have "closest_scan q d (cd, ci) = (cd', ci')" using Cons.prems by simp
    from Cons.IH[OF this] show ?thesis by auto
  qed
qed

lemma closest_object_finite:
  assumes "closest_object q d = Inr i"
  shows "dist_get d i \<noteq> INT64_MAX"
proof -
  obtain cd' ci' where r: "closest_scan q d (INT64_MAX, - 1) = (cd', ci')"
    by (cases "closest_scan q d (INT64_MAX, - 1)") blast
  have i: "ci' = i" "ci' \<noteq> - 1" using assms r by (auto simp: closest_object_def split: if_splits)
  from closest_scan_spec[OF r] i have "dist_get d i <s INT64_MAX" by auto
  then have "sint (dist_get d i) < sint INT64_MAX" by (simp add: word_sless_alt)
  then show ?thesis by auto
qed

lemma relax_links_other:
  "v \<notin> objidx ` set ls \<Longrightarrow> dist_get (relax_links objs U nd ls d) v = dist_get d v"
proof (induction ls arbitrary: d)
  case Nil
  then show ?case by simp
next
  case (Cons l ls)
  have ne: "objidx l \<noteq> v" and rest: "v \<notin> objidx ` set ls" using Cons.prems by auto
  have u: "unat (objidx l) \<noteq> unat v" using ne by (simp add: word_unat_eq_iff)
  have upd: "dist_get (d[unat (objidx l) := y]) v = dist_get d v" for y
    using u by (simp add: dist_get_def)
  show ?case
    using Cons.IH[OF rest] upd by (simp add: Let_def)
qed

lemma fold_hb_set_add_set:
  "set (fold hb_set_add xs s) = set s \<union> (set xs - {INVALID})"
proof (induction xs arbitrary: s)
  case Nil
  then show ?case by simp
next
  case (Cons x xs)
  show ?case
  proof (cases "x = INVALID")
    case True
    then have "hb_set_add x s = s" by (simp add: hb_set_add_def)
    then show ?thesis using Cons.IH[of s] True by auto
  next
    case False
    then show ?thesis using Cons.IH[of "hb_set_add x s"] hb_set_add_set[OF False, of s] by auto
  qed
qed

lemma unvisited_initial:
  assumes n1: "0 < length objs" and n: "length objs < 2 ^ 32"
  shows "set (hb_set_add_range 0 (of_nat (length objs) - 1) []) = nodes objs"
proof -
  have r: "of_nat (length objs) - 1 = root objs" by (simp add: root_def)
  have rn: "root objs \<in> nodes objs" using n1 n by (rule root_node)
  have ri: "root objs \<noteq> INVALID" using n rn by (rule node_not_INVALID)
  have z: "(0 :: 32 word) \<noteq> INVALID" by (simp add: INVALID_def)
  have ur: "Suc (unat (root objs)) = length objs" using unat_root[OF n1 n] n1 by simp
  have "hb_set_add_range 0 (root objs) [] = fold hb_set_add (map of_nat [0..<length objs]) []"
    using ri z ur by (simp add: hb_set_add_range_def)
  then have "set (hb_set_add_range 0 (root objs) []) = of_nat ` {0..<length objs} - {INVALID}"
    by (simp add: fold_hb_set_add_set)
  also have "\<dots> = nodes objs"
    using node_not_INVALID[OF n] by (auto simp: nodes_image[OF n] lessThan_atLeast0)
  finally show ?thesis by (simp only: r)
qed

lemma dijkstra_unreachable:
  "x \<in> set U \<Longrightarrow> set U \<subseteq> nodes objs \<Longrightarrow>
     \<forall>v \<in> nodes objs. \<not> reachable objs v \<longrightarrow> dist_get d v = INT64_MAX \<Longrightarrow>
     \<not> reachable objs x \<Longrightarrow>
     dijkstra_loop objs U d = Inl GraphStructureError"
proof (induction objs U d rule: dijkstra_loop.induct)
  case (1 objs unvisited distance_to)
  have x: "\<not> reachable objs x" using "1.prems"(4) .
  have ne: "unvisited \<noteq> []" using "1.prems"(1) by auto
  show ?case
  proof (cases "closest_object unvisited distance_to")
    case (Inl e)
    have "dijkstra_loop objs unvisited distance_to = Inl e"
      by (subst dijkstra_loop.simps) (simp add: ne Inl)
    then show ?thesis using closest_object_error[OF Inl] by simp
  next
    case (Inr nxt)
    let ?u = "hb_set_del nxt unvisited"
    let ?d = "relax_links objs ?u (ucast (dist_get distance_to nxt)) (links (vec_get objs nxt)) distance_to"
    have e: "dijkstra_loop objs unvisited distance_to = dijkstra_loop objs ?u ?d"
      by (subst dijkstra_loop.simps) (simp add: ne Inr Let_def)
    have nm: "nxt \<in> set unvisited" using Inr by (rule closest_object_member)
    then have nn: "nxt \<in> nodes objs" using "1.prems"(2) by auto
    have "dist_get distance_to nxt \<noteq> INT64_MAX" using Inr by (rule closest_object_finite)
    then have nr: "reachable objs nxt" using "1.prems"(3) nn by blast
    then have "nxt \<noteq> x" using x by auto
    then have a: "x \<in> set ?u" using "1.prems"(1) by (simp add: hb_set_del_def)
    have b: "set ?u \<subseteq> nodes objs" using "1.prems"(2) by (auto simp: hb_set_del_def)
    have c: "\<forall>v \<in> nodes objs. \<not> reachable objs v \<longrightarrow> dist_get ?d v = INT64_MAX"
    proof (intro ballI impI)
      fix v assume v: "v \<in> nodes objs" and u: "\<not> reachable objs v"
      have "v \<notin> set (children objs nxt)" using reachable_child[OF nr nn] u by blast
      then have "v \<notin> objidx ` set (links (vec_get objs nxt))" by (simp add: children_def)
      then have "dist_get ?d v = dist_get distance_to v" by (rule relax_links_other)
      then show "dist_get ?d v = INT64_MAX" using "1.prems"(3) v u by simp
    qed
    show ?thesis unfolding e using a b c x by (rule "1.IH"[OF ne Inr refl refl refl])
  qed
qed

lemma compute_distances_unreachable:
  assumes n: "length objs < 2 ^ 32" and x: "x \<in> nodes objs" and u: "\<not> reachable objs x"
  shows "compute_distances objs = Inl GraphStructureError"
proof -
  have n1: "0 < length objs" using x by (auto simp: nodes_def)
  let ?U = "hb_set_add_range 0 (of_nat (length objs) - 1) []"
  let ?d = "(replicate (length objs) INT64_MAX)[unat (of_nat (length objs) - 1 :: 32 word) := 0]"
  have U: "set ?U = nodes objs" using n1 n by (rule unvisited_initial)
  have r: "unat (of_nat (length objs) - 1 :: 32 word) = unat (root objs)" by (simp add: root_def)
  have d: "\<forall>v \<in> nodes objs. \<not> reachable objs v \<longrightarrow> dist_get ?d v = INT64_MAX"
  proof (intro ballI impI)
    fix v assume v: "v \<in> nodes objs" and nr: "\<not> reachable objs v"
    have "reachable objs (root objs)" by (simp add: reachable_def)
    then have "v \<noteq> root objs" using nr by auto
    then have "unat v \<noteq> unat (root objs)" by (simp add: word_unat_eq_iff)
    then show "dist_get ?d v = INT64_MAX" using v by (simp add: dist_get_def nodes_def r)
  qed
  have "dijkstra_loop objs ?U ?d = Inl GraphStructureError"
    using _ _ d u by (rule dijkstra_unreachable) (simp_all add: U x)
  then show ?thesis by (simp add: compute_distances_def Let_def)
qed

lemma sort_shortest_distance_unreachable:
  assumes n: "length (objects g) < 2 ^ 32" and x: "x \<in> nodes (objects g)"
    and u: "\<not> reachable (objects g) x"
  shows "sort_shortest_distance g = Some (Inl GraphStructureError)"
proof -
  have "1 < length (objects g)" using n x u by (rule unreachable_two)
  then show ?thesis
    using compute_distances_unreachable[OF n x u] by (simp add: sort_shortest_distance_def)
qed

section \<open>The sorted sequence\<close>

lemma sorted_objects_nth:
  "p < length dn \<Longrightarrow>
   sorted_objects objs dn m ! p = remap_object m (vec_get objs (dn ! (length dn - 1 - p)))"
  by (simp add: sorted_objects_def rev_nth)

lemma sorted_topological:
  assumes wf: "well_formed objs" and n1: "0 < length objs"
    and inv: "sort_inv objs dn s" and len: "length dn = length objs"
    and nr: "\<forall>p \<in> nodes objs. root objs \<notin> set (children objs p)"
  shows "reverse_topological (sorted_objects objs dn (id_map s))"
  unfolding reverse_topological_def
proof (intro allI impI ballI)
  fix p l'
  assume p: "p < length (sorted_objects objs dn (id_map s))"
    and l': "l' \<in> set (links (sorted_objects objs dn (id_map s) ! p))"
  have n: "length objs < 2 ^ 32" using wf by (rule well_formed_length)
  have all: "set dn = nodes objs" using n inv len by (rule sort_inv_all)
  have d: "distinct dn" using sort_invD(1)[OF inv] by simp
  have pl: "p < length dn" using p by (simp add: sorted_objects_def)
  define P where "P = dn ! (length dn - 1 - p)"
  have Pi: "length dn - 1 - p < length dn" using pl by simp
  have Pn: "P \<in> nodes objs" using all Pi unfolding P_def by (metis nth_mem)
  have "links (sorted_objects objs dn (id_map s) ! p)
        = map (\<lambda>l. l\<lparr>objidx := id_map s (objidx l)\<rparr>) (links (vec_get objs P))"
    using pl by (simp add: sorted_objects_nth remap_object_def P_def)
  then obtain l where l: "l \<in> set (links (vec_get objs P))" and e: "l' = l\<lparr>objidx := id_map s (objidx l)\<rparr>"
    using l' by auto
  define c where "c = objidx l"
  have cc: "c \<in> set (children objs P)" using l by (simp add: children_def c_def)
  then have cn: "c \<in> nodes objs" using wf Pn children_nodes by blast
  have cr: "c \<noteq> root objs" using nr Pn cc by auto
  have "c \<in> set dn" using cn all by simp
  from id_map_node[OF n1 n inv this] obtain k where
    k: "k < length dn" "dn ! k = c" "unat (id_map s c) = length objs - 1 - k" by blast
  have "P \<in> set (take k dn)"
    using sort_invD(10)[OF inv] k(1,2) cr Pn cc by blast
  then obtain j where j: "j < k" "dn ! j = P" using k(1) by (auto simp: in_set_conv_nth)
  have "j = length dn - 1 - p"
    using d j k(1) Pi unfolding P_def by (simp add: nth_eq_iff_index_eq)
  then have "length objs - 1 - k < p" using j(1) k(1) len pl by linarith
  then show "unat (objidx l') < p" using k(3) by (simp add: e c_def)
qed

lemma sorted_root_last:
  assumes n1: "0 < length objs" and n: "length objs < 2 ^ 32"
    and inv: "sort_inv objs dn s" and qe: "queue s = []" and len: "length dn = length objs"
  shows "last (sorted_objects objs dn m) = remap_object m (last objs)"
proof -
  have h: "dn \<noteq> []" "hd dn = root objs" using sort_inv_root_done[OF inv qe] by simp_all
  have "last (sorted_objects objs dn m) = remap_object m (vec_get objs (hd dn))"
    using h(1) by (simp add: sorted_objects_def last_rev hd_map)
  also have "vec_get objs (hd dn) = objs ! (length objs - 1)"
    using h(2) root_node[OF n1 n] unat_root[OF n1 n] by (simp add: vec_get_node)
  also have "\<dots> = last objs" using n1 by (simp add: last_conv_nth)
  finally show ?thesis .
qed

lemma length_concat_sum: "length (concat xss) = sum_list (map length xss)"
  by (induction xss) simp_all

lemma sorted_well_formed:
  assumes wf: "well_formed objs" and n1: "0 < length objs"
    and inv: "sort_inv objs dn s" and len: "length dn = length objs"
  shows "well_formed (sorted_objects objs dn (id_map s))"
proof -
  have n: "length objs < 2 ^ 32" using wf by (rule well_formed_length)
  have all: "set dn = nodes objs" using n inv len by (rule sort_inv_all)
  have d: "distinct dn" using sort_invD(1)[OF inv] by simp
  have L: "length (sorted_objects objs dn (id_map s)) = length objs"
    using len by (simp add: sorted_objects_def)
  have nl: "distinct (node_list objs)" "set (node_list objs) = nodes objs"
    using node_list_props[OF n] by simp_all
  let ?f = "\<lambda>v. length (links (vec_get objs v))"
  have "length (concat (map links (sorted_objects objs dn (id_map s))))
        = sum_list (map ?f dn)"
    by (simp add: length_concat_sum sorted_objects_def rev_map[symmetric] comp_def remap_object_def)
  also have "\<dots> = sum ?f (set dn)" using d by (rule sum_list_distinct_conv_sum_set)
  also have "\<dots> = sum ?f (set (node_list objs))" using all nl(2) by simp
  also have "\<dots> = sum_list (map ?f (node_list objs))"
    using nl(1) by (rule sum_list_distinct_conv_sum_set[symmetric])
  also have "\<dots> = sum_list (map (\<lambda>i. length (links (objs ! i))) [0..<length objs])"
    using n by (auto simp: node_list_def comp_def vec_get_def unat_of_nat32 intro!: arg_cong[of _ _ sum_list])
  also have "\<dots> = sum_list (map (\<lambda>ob. length (links ob)) (map (\<lambda>i. objs ! i) [0..<length objs]))"
    by (simp add: comp_def)
  also have "\<dots> = length (concat (map links objs))"
    by (simp only: map_nth) (simp add: length_concat_sum comp_def)
  finally have C: "length (concat (map links (sorted_objects objs dn (id_map s)))) < 2 ^ 32 - 1"
    using wf by (simp add: well_formed_def)
  have V: "\<forall>ob \<in> set (sorted_objects objs dn (id_map s)). \<forall>l \<in> set (links ob).
             unat (objidx l) < length (sorted_objects objs dn (id_map s))"
  proof (intro ballI)
    fix ob l' assume ob: "ob \<in> set (sorted_objects objs dn (id_map s))" and l': "l' \<in> set (links ob)"
    from ob obtain P where P: "P \<in> set dn" "ob = remap_object (id_map s) (vec_get objs P)"
      by (auto simp: sorted_objects_def)
    then obtain l where l: "l \<in> set (links (vec_get objs P))" "l' = l\<lparr>objidx := id_map s (objidx l)\<rparr>"
      using l' by (auto simp: remap_object_def)
    have "objidx l \<in> set (children objs P)" using l(1) by (simp add: children_def)
    then have "objidx l \<in> nodes objs" using wf P(1) all children_nodes by blast
    then have "objidx l \<in> set dn" using all by simp
    from id_map_node[OF n1 n inv this] obtain k where
      "k < length dn" "unat (id_map s (objidx l)) = length objs - 1 - k" by blast
    then show "unat (objidx l') < length (sorted_objects objs dn (id_map s))"
      using l(2) L n1 by simp
  qed
  show ?thesis unfolding well_formed_def using L n C V by simp
qed

lemma reverse_topological_no_root:
  assumes n1: "0 < length objs" and n: "length objs < 2 ^ 32" and rt: "reverse_topological objs"
  shows "\<forall>p \<in> nodes objs. root objs \<notin> set (children objs p)"
proof (intro ballI notI)
  fix p assume p: "p \<in> nodes objs" and c: "root objs \<in> set (children objs p)"
  then obtain l where l: "l \<in> set (links (objs ! unat p))" "objidx l = root objs"
    by (auto simp: children_def vec_get_node)
  have pl: "unat p < length objs" using p by (simp add: nodes_def)
  have "unat (objidx l) < unat p"
    using rt[unfolded reverse_topological_def, rule_format, OF pl l(1)] .
  then have "unat (root objs) < unat p" using l(2) by simp
  then show False using p unat_root[OF n1 n] by (simp add: nodes_def)
qed

section \<open>Sufficient conditions that can be evaluated\<close>

lemma reverse_topological_acyclic:
  assumes rt: "reverse_topological objs"
  shows "acyclic (edges objs)"
proof -
  have "edges objs \<subseteq> (measure unat)\<inverse>"
  proof
    fix e assume e: "e \<in> edges objs"
    obtain p c where pc: "e = (p, c)" by (cases e)
    then have p: "p \<in> nodes objs" and c: "c \<in> set (children objs p)" using e by (simp_all add: edges_def)
    then obtain l where l: "l \<in> set (links (objs ! unat p))" "objidx l = c"
      by (auto simp: children_def vec_get_node)
    have pl: "unat p < length objs" using p by (simp add: nodes_def)
    have "unat (objidx l) < unat p"
      using rt[unfolded reverse_topological_def, rule_format, OF pl l(1)] .
    then show "e \<in> (measure unat)\<inverse>" using l(2) pc by simp
  qed
  moreover have "acyclic ((measure unat :: (32 word \<times> 32 word) set)\<inverse>)"
    by (simp add: wf_acyclic)
  ultimately show ?thesis by (rule acyclic_subset[rotated])
qed

lemma parents_root_connected:
  assumes n: "length objs < 2 ^ 32" and rt: "reverse_topological objs"
    and hp: "every_node_has_parent objs"
  shows "root_connected objs"
  unfolding root_connected_def
proof
  fix v assume v: "v \<in> nodes objs"
  then have n1: "0 < length objs" by (auto simp: nodes_def)
  show "reachable objs v" using v
  proof (induction "length objs - unat v" arbitrary: v rule: less_induct)
    case less
    have vl: "unat v < length objs" using less.prems by (simp add: nodes_def)
    show ?case
    proof (cases "unat v = length objs - 1")
      case True
      then have "unat v = unat (root objs)" using unat_root[OF n1 n] by simp
      then have "v = root objs" by (simp add: word_unat_eq_iff)
      then show ?thesis by (simp add: reachable_def)
    next
      case False
      then have "unat v \<in> set [0..<length objs - 1]" using vl by simp
      then have "list_ex (\<lambda>p. of_nat (unat v) \<in> set (children objs (of_nat p))) [0..<length objs]"
        using hp unfolding every_node_has_parent_def list_all_iff by blast
      then obtain p where p: "p < length objs" "v \<in> set (children objs (of_nat p))"
        by (auto simp: list_ex_iff)
      have pn: "(of_nat p :: 32 word) \<in> nodes objs" using n p(1) by (rule node_of_nat)
      have up: "unat (of_nat p :: 32 word) = p" using p(1) n by (simp add: unat_of_nat32)
      obtain l where l: "l \<in> set (links (objs ! p))" "objidx l = v"
        using p(2) pn up by (auto simp: children_def vec_get_node)
      have "unat (objidx l) < p"
        using rt[unfolded reverse_topological_def, rule_format, OF p(1) l(1)] .
      then have "length objs - unat (of_nat p :: 32 word) < length objs - unat v"
        using l(2) up p(1) by simp
      then have "reachable objs (of_nat p)" using pn by (rule less.hyps)
      then show ?thesis using pn p(2) by (rule reachable_child)
    qed
  qed
qed

lemma reverse_topological_code:
  "reverse_topological objs =
     list_all (\<lambda>p. list_all (\<lambda>l. unat (objidx l) < p) (links (objs ! p))) [0..<length objs]"
  by (auto simp: reverse_topological_def list_all_iff)

lemma reachable_closed:
  assumes r: "root objs \<in> S" and cl: "\<forall>p \<in> S. set (children objs p) \<subseteq> S"
  shows "reachable objs v \<Longrightarrow> v \<in> S"
  unfolding reachable_def
proof (induction rule: rtrancl_induct)
  case base
  then show ?case using r .
next
  case (step y z)
  then have "z \<in> set (children objs y)" by (simp add: edges_def)
  then show ?case using cl step.IH by blast
qed

section \<open>Properties of the sorts\<close>

lemma single_object_topological:
  assumes wf: "well_formed objs" and ac: "acyclic (edges objs)" and l: "length objs \<le> 1"
  shows "reverse_topological objs"
  unfolding reverse_topological_def
proof (intro allI impI ballI)
  fix p l' assume p: "p < length objs" and l': "l' \<in> set (links (objs ! p))"
  have p0: "p = 0" and n1: "length objs = 1" using p l by simp_all
  have "objs ! p \<in> set objs" using p by simp
  then have "unat (objidx l') < length objs" using wf l' by (auto simp: well_formed_def)
  then have "unat (objidx l') = 0" using n1 by simp
  then have c0: "objidx l' = 0" by (metis unat_eq_zero)
  have z: "(0 :: 32 word) \<in> nodes objs" using n1 by (simp add: nodes_def)
  have "(0, 0) \<in> edges objs"
    using z l' c0 p0 by (auto simp: edges_def children_def vec_get_node intro!: image_eqI[of _ _ l'])
  then have "(0, 0) \<in> (edges objs)\<^sup>+" by (rule r_into_trancl)
  then show "unat (objidx l') < p" using ac by (simp add: acyclic_def)
qed

lemma sorted_result:
  assumes wf: "well_formed (objects g)" and ac: "acyclic (edges (objects g))"
    and rc: "root_connected (objects g)" and n2: "1 < length (objects g)"
    and inv: "sort_inv (objects g) dn s" and qe: "queue s = []"
  shows "finish_sort g s = Inr (g\<lparr>objects := sorted_objects (objects g) dn (id_map s)\<rparr>)"
    and "reverse_topological (sorted_objects (objects g) dn (id_map s))"
    and "well_formed (sorted_objects (objects g) dn (id_map s))"
    and "length (sorted_objects (objects g) dn (id_map s)) = length (objects g)"
    and "last (sorted_objects (objects g) dn (id_map s)) = remap_object (id_map s) (last (objects g))"
proof -
  have n1: "0 < length (objects g)" using n2 by (cases "objects g") simp_all
  have n: "length (objects g) < 2 ^ 32" using wf by (rule well_formed_length)
  have len: "length dn = length (objects g)" using wf ac rc inv qe by (rule sort_complete)
  have hr: "no_link_to_root (objects g)" using ac by (rule acyclic_no_link_to_root)
  have nr: "\<forall>p \<in> nodes (objects g). root (objects g) \<notin> set (children (objects g) p)"
    using hr rc by (auto simp: no_link_to_root_def root_connected_def)
  show "finish_sort g s = Inr (g\<lparr>objects := sorted_objects (objects g) dn (id_map s)\<rparr>)"
    using finish_sort_complete[OF wf n1 inv len] by (simp add: sorted_objects_def)
  show "reverse_topological (sorted_objects (objects g) dn (id_map s))"
    using wf n1 inv len nr by (rule sorted_topological)
  show "well_formed (sorted_objects (objects g) dn (id_map s))"
    using wf n1 inv len by (rule sorted_well_formed)
  show "length (sorted_objects (objects g) dn (id_map s)) = length (objects g)"
    using len by (simp add: sorted_objects_def)
  show "last (sorted_objects (objects g) dn (id_map s)) = remap_object (id_map s) (last (objects g))"
    using n1 n inv qe len by (rule sorted_root_last)
qed

lemma sort_kahn_succeeds:
  assumes wf: "well_formed (objects g)" and ac: "acyclic (edges (objects g))"
    and rc: "root_connected (objects g)"
  shows "\<exists>g'. sort_kahn g = Some (Inr g') \<and> reverse_topological (objects g')
           \<and> well_formed (objects g') \<and> length (objects g') = length (objects g)"
proof (cases "1 < length (objects g)")
  case False
  then have l: "length (objects g) \<le> 1" by simp
  then have "sort_kahn g = Some (Inr g)" by (simp add: sort_kahn_def)
  then show ?thesis using single_object_topological[OF wf ac l] wf by blast
next
  case True
  have hr: "no_link_to_root (objects g)" using ac by (rule acyclic_no_link_to_root)
  from sort_kahn_run[OF wf hr True] obtain dn s where
    r: "sort_kahn g = Some (finish_sort g s)" and inv: "sort_inv (objects g) dn s"
    and qe: "queue s = []" by blast
  note R = sorted_result[OF wf ac rc True inv qe]
  show ?thesis
    using r R(1) R(2) R(3) R(4) by (intro exI[of _ "g\<lparr>objects := sorted_objects (objects g) dn (id_map s)\<rparr>"]) simp
qed

text \<open>
  C2. On a well-formed, acyclic sequence in which every object is reachable from the
  root, the result of either sort, when the sort completes, is in reverse topological
  order: every link leads to a strictly smaller index. The sequence keeps its length
  and the root object stays at the highest index.
\<close>

theorem sorts_reverse_topological:
  assumes "well_formed (objects g)" and "acyclic (edges (objects g))"
    and "root_connected (objects g)"
    and "sort_kahn g = Some (Inr g') \<or> sort_shortest_distance g = Some (Inr g')"
  shows "reverse_topological (objects g') \<and> length (objects g') = length (objects g)
         \<and> head (last (objects g')) = head (last (objects g))
         \<and> tail (last (objects g')) = tail (last (objects g))"
proof (cases "1 < length (objects g)")
  case False
  then have l: "length (objects g) \<le> 1" by simp
  then have "g' = g" using assms(4) by (auto simp: sort_kahn_def sort_shortest_distance_def)
  then show ?thesis using single_object_topological[OF assms(1,2) l] by simp
next
  case True
  have hr: "no_link_to_root (objects g)" using assms(2) by (rule acyclic_no_link_to_root)
  have "\<exists>dn s. finish_sort g s = Inr g' \<and> sort_inv (objects g) dn s \<and> queue s = []"
    using assms(4)
  proof
    assume a: "sort_kahn g = Some (Inr g')"
    from sort_kahn_run[OF assms(1) hr True] obtain dn s where
      "sort_kahn g = Some (finish_sort g s)" "sort_inv (objects g) dn s" "queue s = []" by blast
    then show ?thesis using a by (intro exI[of _ dn] exI[of _ s]) simp
  next
    assume a: "sort_shortest_distance g = Some (Inr g')"
    from sort_shortest_distance_run[OF assms(1) hr True] a obtain dn s where
      "sort_shortest_distance g = Some (finish_sort g s)" "sort_inv (objects g) dn s" "queue s = []"
      by auto
    then show ?thesis using a by (intro exI[of _ dn] exI[of _ s]) simp
  qed
  then obtain dn s where f: "finish_sort g s = Inr g'" and inv: "sort_inv (objects g) dn s"
    and qe: "queue s = []" by blast
  note R = sorted_result[OF assms(1,2,3) True inv qe]
  have g': "objects g' = sorted_objects (objects g) dn (id_map s)" using f R(1) by auto
  show ?thesis using R(2) R(4) R(5) by (simp add: g' remap_object_def)
qed

lemma truncation_graph_facts:
  "well_formed truncation_graph" "acyclic (edges truncation_graph)" "root_connected truncation_graph"
proof -
  show wf: "well_formed truncation_graph"
    by (simp add: well_formed_def truncation_graph_def obj_def link_to_def wide_link_to_def)
  have rt: "reverse_topological truncation_graph" unfolding reverse_topological_code by code_simp
  then show "acyclic (edges truncation_graph)" by (rule reverse_topological_acyclic)
  have "every_node_has_parent truncation_graph" by code_simp
  then show "root_connected truncation_graph"
    using well_formed_length[OF wf] rt by (intro parents_root_connected)
qed

text \<open>
  Witness for C2: the four objects of \<open>truncation_graph\<close>, on which both sorts
  complete.
\<close>

theorem sorts_reverse_topological_witness:
  "well_formed truncation_graph \<and> acyclic (edges truncation_graph) \<and> root_connected truncation_graph
   \<and> sort_kahn \<lparr>objects = truncation_graph\<rparr> = Some (Inr \<lparr>objects = truncation_graph\<rparr>)
   \<and> sort_shortest_distance \<lparr>objects = truncation_graph\<rparr> = Some (Inr \<lparr>objects = truncation_graph\<rparr>)
   \<and> reverse_topological truncation_graph"
proof -
  have k: "sort_kahn \<lparr>objects = truncation_graph\<rparr> = Some (Inr \<lparr>objects = truncation_graph\<rparr>)"
    by code_simp
  have d: "sort_shortest_distance \<lparr>objects = truncation_graph\<rparr> = Some (Inr \<lparr>objects = truncation_graph\<rparr>)"
    by code_simp
  have "reverse_topological (objects \<lparr>objects = truncation_graph\<rparr>)"
    using sorts_reverse_topological[of "\<lparr>objects = truncation_graph\<rparr>" "\<lparr>objects = truncation_graph\<rparr>"]
      truncation_graph_facts k by simp
  then show ?thesis using truncation_graph_facts k d by simp
qed

text \<open>
  C7 (as amended). When some object is unreachable from the root, the distance sort
  fails with \<open>GraphStructureError\<close> on every sequence, and the Kahn sort fails with
  \<open>GraphStructureError\<close> on every well-formed sequence without cycles.
\<close>

theorem sorts_reject_unreachable:
  "(length (objects g) < 2 ^ 32 \<and> x \<in> nodes (objects g) \<and> \<not> reachable (objects g) x
      \<longrightarrow> sort_shortest_distance g = Some (Inl GraphStructureError))
   \<and> (well_formed (objects g) \<and> acyclic (edges (objects g))
        \<and> x \<in> nodes (objects g) \<and> \<not> reachable (objects g) x
      \<longrightarrow> sort_kahn g = Some (Inl GraphStructureError))"
  using sort_shortest_distance_unreachable[of g x] sort_kahn_unreachable[of g x] by blast

lemma detached_graph_facts:
  "well_formed detached_graph" "acyclic (edges detached_graph)"
  "0 \<in> nodes detached_graph" "\<not> reachable detached_graph 0"
proof -
  show "well_formed detached_graph"
    by (simp add: well_formed_def detached_graph_def obj_def link_to_def)
  have "reverse_topological detached_graph" unfolding reverse_topological_code by code_simp
  then show "acyclic (edges detached_graph)" by (rule reverse_topological_acyclic)
  show "0 \<in> nodes detached_graph" by (simp add: nodes_def detached_graph_def)
  show "\<not> reachable detached_graph 0"
  proof
    assume "reachable detached_graph 0"
    then have "(0 :: 32 word) \<in> set [1, 2]"
    proof (rule reachable_closed[rotated 2])
      show "root detached_graph \<in> set [1, 2]" by code_simp
      show "\<forall>p \<in> set [1, 2]. set (children detached_graph p) \<subseteq> set [1, 2]" by code_simp
    qed
    then show False by simp
  qed
qed

text \<open>
  Witness for C7: in \<open>detached_graph\<close> the root links to object 1 and nothing links
  to object 0.
\<close>

theorem sorts_reject_unreachable_witness:
  "well_formed detached_graph \<and> acyclic (edges detached_graph)
   \<and> 0 \<in> nodes detached_graph \<and> \<not> reachable detached_graph 0
   \<and> length detached_graph < 2 ^ 32
   \<and> sort_kahn \<lparr>objects = detached_graph\<rparr> = Some (Inl GraphStructureError)
   \<and> sort_shortest_distance \<lparr>objects = detached_graph\<rparr> = Some (Inl GraphStructureError)"
proof -
  have l: "length detached_graph < 2 ^ 32" by (simp add: detached_graph_def)
  show ?thesis
    using sorts_reject_unreachable[of "\<lparr>objects = detached_graph\<rparr>" 0] detached_graph_facts l
    by simp
qed

lemma cyclic_detached_unreachable: "\<not> reachable cyclic_detached_graph 0"
proof
  assume "reachable cyclic_detached_graph 0"
  then have "(0 :: 32 word) \<in> set [1, 2]"
  proof (rule reachable_closed[rotated 2])
    show "root cyclic_detached_graph \<in> set [1, 2]" by code_simp
    show "\<forall>p \<in> set [1, 2]. set (children cyclic_detached_graph p) \<subseteq> set [1, 2]" by code_simp
  qed
  then show False by simp
qed

text \<open>
  Counterexample to C7 as stated: in \<open>cyclic_detached_graph\<close> the root and object 1
  link to each other and object 0 is unreachable. The Kahn sort takes the root from
  the queue twice, counts three objects and completes; its result holds the root
  twice and has lost object 0.
\<close>

theorem sort_kahn_counterexample:
  "0 \<in> nodes cyclic_detached_graph \<and> \<not> reachable cyclic_detached_graph 0
   \<and> sort_kahn \<lparr>objects = cyclic_detached_graph\<rparr>
       = Some (Inr \<lparr>objects = [obj 4 8 [link_to 1], obj 2 4 [link_to 0], obj 4 8 [link_to 1]]\<rparr>)"
proof -
  have "sort_kahn \<lparr>objects = cyclic_detached_graph\<rparr>
       = Some (Inr \<lparr>objects = [obj 4 8 [link_to 1], obj 2 4 [link_to 0], obj 4 8 [link_to 1]]\<rparr>)"
    by code_simp
  moreover have "0 \<in> nodes cyclic_detached_graph" by (simp add: nodes_def cyclic_detached_graph_def)
  ultimately show ?thesis using cyclic_detached_unreachable by simp
qed

text \<open>
  C5 at a failing input. In \<open>truncation_graph\<close> the root reaches objects 0 and 2
  through wide links, object 2 reaches object 1 and object 1 reaches object 0 through
  narrow links. The distance of object 2 is \<open>2^32 + 4\<close>; it is read into the 32-bit
  \<open>next_distance\<close> as 4, so that object 1 gets the distance 65542 after object 0
  was settled at \<open>2^32 + 2\<close>. For the link from object 1 to object 0, of weight
  \<open>2 + 2^16\<close>, the distance of the child exceeds the distance of the parent plus the
  weight. The sequence is well formed, acyclic and root-connected, as the witness for
  C2 shows.
\<close>

theorem compute_distances_truncates:
  "compute_distances truncation_graph = Inr [4294967298, 65542, 4294967300, 0]
   \<and> links (truncation_graph ! 1) = [link_to 0]
   \<and> \<not> ((4294967298 :: int) \<le> 65542 + (2 + 2 ^ 16))"
proof -
  have "compute_distances truncation_graph = Inr [4294967298, 65542, 4294967300, 0]" by code_simp
  moreover have "links (truncation_graph ! 1) = [link_to 0]" by code_simp
  ultimately show ?thesis by simp
qed

section \<open>A second run of the Kahn sort\<close>

text \<open>The run on the sorted sequence follows the run on the original one, object by object,
under the renaming given by the final index map.\<close>

lemma sorted_renaming:
  assumes wf: "well_formed objs" and n1: "0 < length objs"
    and inv: "sort_inv objs dn s" and qe: "queue s = []" and len: "length dn = length objs"
  shows "renaming objs (sorted_objects objs dn (id_map s)) (id_map s)"
proof -
  have n: "length objs < 2 ^ 32" using wf by (rule well_formed_length)
  have all: "set dn = nodes objs" using n inv len by (rule sort_inv_all)
  have d: "distinct dn" using sort_invD(1)[OF inv] by simp
  let ?m = "id_map s"
  have idx: "\<exists>k < length dn. dn ! k = v \<and> ?m v = of_nat (length objs - 1 - k)
            \<and> unat (?m v) = length objs - 1 - k" if "v \<in> nodes objs" for v
    using id_map_node[OF n1 n inv] that all by simp
  have L: "length (sorted_objects objs dn ?m) = length objs" using len by (simp add: sorted_objects_def)
  have I: "inj_on ?m (nodes objs)"
  proof (rule inj_onI)
    fix v w assume v: "v \<in> nodes objs" and w: "w \<in> nodes objs" and e: "?m v = ?m w"
    from idx[OF v] obtain k where k: "k < length dn" "dn ! k = v" "unat (?m v) = length objs - 1 - k" by blast
    from idx[OF w] obtain j where j: "j < length dn" "dn ! j = w" "unat (?m w) = length objs - 1 - j" by blast
    have "length objs - 1 - k = length objs - 1 - j" using k(3) j(3) e by simp
    then have "k = j" using k(1) j(1) len by linarith
    then show "v = w" using k(2) j(2) by simp
  qed
  have M: "?m ` nodes objs \<subseteq> nodes objs"
  proof
    fix w assume "w \<in> ?m ` nodes objs"
    then obtain v where v: "v \<in> nodes objs" "w = ?m v" by blast
    from idx[OF v(1)] obtain k where "k < length dn" "unat (?m v) = length objs - 1 - k" by blast
    then show "w \<in> nodes objs" using v(2) n1 by (simp add: nodes_def)
  qed
  have S: "?m ` nodes objs = nodes objs"
  proof (rule card_subset_eq)
    show "finite (nodes objs)" by simp
    show "?m ` nodes objs \<subseteq> nodes objs" by (rule M)
    show "card (?m ` nodes objs) = card (nodes objs)" using I by (rule card_image)
  qed
  have h: "dn \<noteq> []" "hd dn = root objs" using sort_inv_root_done[OF inv qe] by simp_all
  have R: "?m (root objs) = root objs"
  proof -
    have "0 < length dn" using h(1) by simp
    then have "?m (dn ! 0) = root objs - of_nat 0" using sort_invD(5)[OF inv] by blast
    moreover have "dn ! 0 = root objs" using h by (simp add: hd_conv_nth)
    ultimately show ?thesis by simp
  qed
  have V: "\<forall>v \<in> nodes objs. vec_get (sorted_objects objs dn ?m) (?m v) = remap_object ?m (vec_get objs v)"
  proof
    fix v assume v: "v \<in> nodes objs"
    from idx[OF v] obtain k where k: "k < length dn" "dn ! k = v" "unat (?m v) = length objs - 1 - k" by blast
    have p: "length objs - 1 - k < length dn" using k(1) len by simp
    have "vec_get (sorted_objects objs dn ?m) (?m v) = sorted_objects objs dn ?m ! (length objs - 1 - k)"
      using k(3) p L len by (simp add: vec_get_def)
    also have "\<dots> = remap_object ?m (vec_get objs (dn ! (length dn - 1 - (length objs - 1 - k))))"
      using p by (rule sorted_objects_nth)
    also have "length dn - 1 - (length objs - 1 - k) = k" using k(1) len by simp
    finally show "vec_get (sorted_objects objs dn ?m) (?m v) = remap_object ?m (vec_get objs v)"
      using k(2) by simp
  qed
  show ?thesis unfolding renaming_def using L I S R V by simp
qed

lemma decrement_children_renamed:
  assumes inj: "inj_on \<pi> N" and ni: "INVALID \<notin> N" and im: "\<pi> ` N \<subseteq> N"
  shows "objidx ` set ls \<subseteq> N \<Longrightarrow> \<forall>v \<in> N. ec' (\<pi> v) = ec v \<Longrightarrow>
     decrement_children (\<lambda>x q. q @ [x]) ls (ec, q) = (ec1, q1) \<Longrightarrow>
     \<exists>ec1'. decrement_children (\<lambda>x q. q @ [x]) (map (\<lambda>l. l\<lparr>objidx := \<pi> (objidx l)\<rparr>) ls) (ec', map \<pi> q)
               = (ec1', map \<pi> q1)
            \<and> (\<forall>v \<in> N. ec1' (\<pi> v) = ec1 v)"
proof (induction ls arbitrary: ec ec' q)
  case Nil
  then show ?case by simp
next
  case (Cons l ls)
  let ?c = "objidx l"
  have cN: "?c \<in> N" using Cons.prems(1) by simp
  then have ci: "?c \<noteq> INVALID" using ni by auto
  have pc: "\<pi> ?c \<in> N" using cN im by auto
  then have pi: "\<pi> ?c \<noteq> INVALID" using ni by auto
  define ecA where "ecA = ec(?c := ec ?c - 1)"
  define ecA' where "ecA' = ec'(\<pi> ?c := ec' (\<pi> ?c) - 1)"
  define qA where "qA = (if ecA ?c = 0 then q @ [?c] else q)"
  have e0: "ec' (\<pi> ?c) = ec ?c" using Cons.prems(2) cN by blast
  have rel: "\<forall>v \<in> N. ecA' (\<pi> v) = ecA v"
  proof
    fix v assume v: "v \<in> N"
    show "ecA' (\<pi> v) = ecA v"
    proof (cases "v = ?c")
      case True
      then show ?thesis by (simp add: ecA_def ecA'_def e0)
    next
      case False
      then have "\<pi> v \<noteq> \<pi> ?c" using inj v cN by (auto dest: inj_onD)
      then show ?thesis using False Cons.prems(2) v by (simp add: ecA_def ecA'_def)
    qed
  qed
  have s1: "decrement_children (\<lambda>x q. q @ [x]) (l # ls) (ec, q)
            = decrement_children (\<lambda>x q. q @ [x]) ls (ecA, qA)"
    using ci unfolding ecA_def qA_def by (simp add: Let_def hb_map_set_def hb_map_get_def)
  have t: "(ecA' (\<pi> ?c) = 0) = (ecA ?c = 0)" using rel cN by simp
  have s2: "decrement_children (\<lambda>x q. q @ [x]) (map (\<lambda>l. l\<lparr>objidx := \<pi> (objidx l)\<rparr>) (l # ls)) (ec', map \<pi> q)
            = decrement_children (\<lambda>x q. q @ [x]) (map (\<lambda>l. l\<lparr>objidx := \<pi> (objidx l)\<rparr>) ls) (ecA', map \<pi> qA)"
  proof -
    have raw: "decrement_children (\<lambda>x q. q @ [x]) (map (\<lambda>l. l\<lparr>objidx := \<pi> (objidx l)\<rparr>) (l # ls)) (ec', map \<pi> q)
            = decrement_children (\<lambda>x q. q @ [x]) (map (\<lambda>l. l\<lparr>objidx := \<pi> (objidx l)\<rparr>) ls)
                (ecA', if ecA' (\<pi> ?c) = 0 then map \<pi> q @ [\<pi> ?c] else map \<pi> q)"
      using pi unfolding ecA'_def by (simp add: Let_def hb_map_set_def hb_map_get_def)
    have "(if ecA' (\<pi> ?c) = 0 then map \<pi> q @ [\<pi> ?c] else map \<pi> q) = map \<pi> qA"
      unfolding t qA_def by simp
    then show ?thesis using raw by simp
  qed
  have r: "decrement_children (\<lambda>x q. q @ [x]) ls (ecA, qA) = (ec1, q1)"
    using Cons.prems(3) s1 by simp
  have sub: "objidx ` set ls \<subseteq> N" using Cons.prems(1) by auto
  from Cons.IH[OF sub rel r] show ?case unfolding s2 .
qed

lemma renamingD:
  assumes "renaming objs objs' \<pi>"
  shows "length objs' = length objs" and "inj_on \<pi> (nodes objs)" and "\<pi> ` nodes objs = nodes objs"
    and "\<pi> (root objs) = root objs"
    and "\<forall>v \<in> nodes objs. vec_get objs' (\<pi> v) = remap_object \<pi> (vec_get objs v)"
  using assms unfolding renaming_def by blast+

lemma simulatesD:
  assumes "simulates \<pi> objs s s'"
  shows "queue s' = map \<pi> (queue s)"
    and "sorted_graph s' = map (remap_object \<pi>) (sorted_graph s)"
    and "new_id s' = new_id s"
    and "\<forall>v \<in> nodes objs. edge_count s' (\<pi> v) = edge_count s v"
    and "\<forall>v \<in> nodes objs. id_map s' (\<pi> v) = id_map s v"
  using assms unfolding simulates_def by blast+

lemma visit_renamed:
  assumes ren: "renaming objs objs' \<pi>" and wf: "well_formed objs"
    and sim: "simulates \<pi> objs s s'" and nxn: "nxt \<in> nodes objs"
  shows "simulates \<pi> objs (visit (\<lambda>x q. q @ [x]) objs nxt rest s)
           (visit (\<lambda>x q. q @ [x]) objs' (\<pi> nxt) (map \<pi> rest) s')"
proof -
  have n: "length objs < 2 ^ 32" using wf by (rule well_formed_length)
  have ni: "INVALID \<notin> nodes objs" using node_not_INVALID[OF n] by blast
  have inj: "inj_on \<pi> (nodes objs)" and im: "\<pi> ` nodes objs \<subseteq> nodes objs"
    using renamingD(2,3)[OF ren] by simp_all
  have pn: "\<pi> nxt \<in> nodes objs" using im nxn by blast
  have nx_i: "nxt \<noteq> INVALID" and pn_i: "\<pi> nxt \<noteq> INVALID" using ni nxn pn by auto
  define ls where "ls = links (vec_get objs nxt)"
  have vg: "vec_get objs' (\<pi> nxt) = remap_object \<pi> (vec_get objs nxt)"
    using renamingD(5)[OF ren] nxn by blast
  then have ls': "links (vec_get objs' (\<pi> nxt)) = map (\<lambda>l. l\<lparr>objidx := \<pi> (objidx l)\<rparr>) ls"
    by (simp add: remap_object_def ls_def)
  have sub: "objidx ` set ls \<subseteq> nodes objs"
    using children_nodes[OF wf nxn] by (auto simp: children_def ls_def)
  obtain ec1 q1 where r: "decrement_children (\<lambda>x q. q @ [x]) ls (edge_count s, rest) = (ec1, q1)"
    by (cases "decrement_children (\<lambda>x q. q @ [x]) ls (edge_count s, rest)") blast
  from decrement_children_renamed[OF inj ni im sub simulatesD(4)[OF sim] r]
  obtain ec1' where r': "decrement_children (\<lambda>x q. q @ [x]) (map (\<lambda>l. l\<lparr>objidx := \<pi> (objidx l)\<rparr>) ls)
               (edge_count s', map \<pi> rest) = (ec1', map \<pi> q1)"
     and e: "\<forall>v \<in> nodes objs. ec1' (\<pi> v) = ec1 v" by blast
  have v1: "visit (\<lambda>x q. q @ [x]) objs nxt rest s =
      \<lparr>queue = q1, sorted_graph = sorted_graph s @ [vec_get objs nxt],
       id_map = hb_map_set (id_map s) nxt (new_id s), edge_count = ec1, new_id = new_id s - 1\<rparr>"
    using r by (simp add: visit_def Let_def ls_def)
  have v2: "visit (\<lambda>x q. q @ [x]) objs' (\<pi> nxt) (map \<pi> rest) s' =
      \<lparr>queue = map \<pi> q1, sorted_graph = sorted_graph s' @ [vec_get objs' (\<pi> nxt)],
       id_map = hb_map_set (id_map s') (\<pi> nxt) (new_id s'), edge_count = ec1', new_id = new_id s' - 1\<rparr>"
    using r' by (simp add: visit_def Let_def ls')
  have im_eq: "\<forall>v \<in> nodes objs. hb_map_set (id_map s') (\<pi> nxt) (new_id s') (\<pi> v)
                 = hb_map_set (id_map s) nxt (new_id s) v"
  proof
    fix v assume v: "v \<in> nodes objs"
    have "(\<pi> v = \<pi> nxt) = (v = nxt)" using inj v nxn by (auto dest: inj_onD)
    then show "hb_map_set (id_map s') (\<pi> nxt) (new_id s') (\<pi> v) = hb_map_set (id_map s) nxt (new_id s) v"
      using nx_i pn_i simulatesD(3,5)[OF sim] v by (simp add: hb_map_set_def)
  qed
  show ?thesis
    unfolding simulates_def v1 v2
    using simulatesD(2,3)[OF sim] vg e im_eq by simp
qed

lemma kahn_loop_renamed:
  assumes wf: "well_formed objs" and hr: "no_link_to_root objs" and ren: "renaming objs objs' \<pi>"
  shows "sort_inv objs dn s \<Longrightarrow> simulates \<pi> objs s s' \<Longrightarrow>
     \<exists>s1 s1' dn1. kahn_loop objs s = Some s1 \<and> kahn_loop objs' s' = Some s1'
        \<and> simulates \<pi> objs s1 s1' \<and> sort_inv objs dn1 s1 \<and> queue s1 = []"
proof (induction "length objs - length dn" arbitrary: dn s s' rule: less_induct)
  case less
  have n: "length objs < 2 ^ 32" using wf by (rule well_formed_length)
  show ?case
  proof (cases "queue s")
    case Nil
    then have a: "kahn_loop objs s = Some s" by (subst kahn_loop.simps) simp
    have "queue s' = []" using simulatesD(1)[OF less.prems(2)] Nil by simp
    then have b: "kahn_loop objs' s' = Some s'" by (subst kahn_loop.simps) simp
    show ?thesis using a b less.prems Nil by blast
  next
    case (Cons nxt rest)
    let ?s = "visit (\<lambda>x q. q @ [x]) objs nxt rest s"
    let ?s' = "visit (\<lambda>x q. q @ [x]) objs' (\<pi> nxt) (map \<pi> rest) s'"
    have d: "distinct (queue s)" using sort_invD(1)[OF less.prems(1)] by simp
    have nxn: "nxt \<in> nodes objs" using sort_invD(2)[OF less.prems(1)] Cons by simp
    have inv': "sort_inv objs (dn @ [nxt]) ?s"
      using wf hr _ _ less.prems(1)
    proof (rule visit_inv)
      show "nxt \<in> set (queue s)" using Cons by simp
      show "set rest = set (queue s) - {nxt}" using Cons d by auto
      show "distinct rest" using Cons d by simp
    qed simp_all
    have sim': "simulates \<pi> objs ?s ?s'" using ren wf less.prems(2) nxn by (rule visit_renamed)
    have "length dn + length (queue s) \<le> length objs" using n less.prems(1) by (rule sort_inv_length)
    then have m: "length objs - length (dn @ [nxt]) < length objs - length dn" using Cons by simp
    from less.hyps[OF m inv' sim'] obtain s1 s1' dn1 where
      r: "kahn_loop objs ?s = Some s1" "kahn_loop objs' ?s' = Some s1'"
         "simulates \<pi> objs s1 s1'" "sort_inv objs dn1 s1" "queue s1 = []" by blast
    have a: "kahn_loop objs s = kahn_loop objs ?s" using Cons by (subst kahn_loop.simps) simp
    have "queue s' = \<pi> nxt # map \<pi> rest" using simulatesD(1)[OF less.prems(2)] Cons by simp
    then have b: "kahn_loop objs' s' = kahn_loop objs' ?s'" by (subst kahn_loop.simps) simp
    show ?thesis using r a b by auto
  qed
qed

lemma count_list_inj_map:
  "inj_on f (insert x (set xs)) \<Longrightarrow> count_list (map f xs) (f x) = count_list xs x"
proof (induction xs)
  case Nil
  then show ?case by simp
next
  case (Cons a xs)
  have i: "inj_on f (insert x (set xs))" using Cons.prems by (rule inj_on_subset) auto
  have "(f a = f x) = (a = x)"
    using inj_on_eq_iff[OF Cons.prems, of a x] by simp
  then show ?case using Cons.IH[OF i] by simp
qed

lemma links_from_renamed:
  assumes ren: "renaming objs objs' \<pi>" and wf: "well_formed objs" and v: "v \<in> nodes objs"
  shows "links_from objs' (nodes objs') (\<pi> v) = links_from objs (nodes objs) v"
proof -
  have ne: "nodes objs' = nodes objs" using renamingD(1)[OF ren] by (simp add: nodes_def)
  have inj: "inj_on \<pi> (nodes objs)" and im: "\<pi> ` nodes objs = nodes objs"
    using renamingD(2,3)[OF ren] by simp_all
  have ch: "children objs' (\<pi> p) = map \<pi> (children objs p)" if "p \<in> nodes objs" for p
    using renamingD(5)[OF ren] that by (simp add: children_def remap_object_def comp_def)
  have "links_from objs' (nodes objs') (\<pi> v) = (\<Sum>p \<in> \<pi> ` nodes objs. count_list (children objs' p) (\<pi> v))"
    by (simp add: links_from_def ne im)
  also have "\<dots> = (\<Sum>p \<in> nodes objs. count_list (children objs' (\<pi> p)) (\<pi> v))"
    using inj by (simp add: sum.reindex)
  also have "\<dots> = (\<Sum>p \<in> nodes objs. count_list (children objs p) v)"
  proof (rule sum.cong)
    fix p assume p: "p \<in> nodes objs"
    have "insert v (set (children objs p)) \<subseteq> nodes objs" using v children_nodes[OF wf p] by auto
    then have "inj_on \<pi> (insert v (set (children objs p)))" using inj by (rule inj_on_subset[rotated])
    then show "count_list (children objs' (\<pi> p)) (\<pi> v) = count_list (children objs p) v"
      by (simp add: ch[OF p] count_list_inj_map)
  qed simp
  finally show ?thesis by (simp add: links_from_def)
qed

lemma initial_renamed:
  assumes ren: "renaming objs objs' \<pi>" and wf: "well_formed objs" and wf': "well_formed objs'"
  shows "simulates \<pi> objs (initial_state objs) (initial_state objs')"
proof -
  have l: "length objs' = length objs" by (rule renamingD(1)[OF ren])
  have ne: "nodes objs' = nodes objs" using l by (simp add: nodes_def)
  have im: "\<pi> ` nodes objs = nodes objs" by (rule renamingD(3)[OF ren])
  have r: "\<pi> (root objs) = root objs" by (rule renamingD(4)[OF ren])
  have e: "\<forall>v \<in> nodes objs. incoming_edge_count objs' (\<pi> v) = incoming_edge_count objs v"
  proof
    fix v assume v: "v \<in> nodes objs"
    then have pv: "\<pi> v \<in> nodes objs'" using im ne by blast
    have "unat (incoming_edge_count objs' (\<pi> v)) = links_from objs' (nodes objs') (\<pi> v)"
      using wf' pv by (rule incoming_edge_count_node)
    also have "\<dots> = links_from objs (nodes objs) v" using ren wf v by (rule links_from_renamed)
    also have "\<dots> = unat (incoming_edge_count objs v)"
      using incoming_edge_count_node[OF wf v] by simp
    finally show "incoming_edge_count objs' (\<pi> v) = incoming_edge_count objs v"
      by (simp add: word_unat_eq_iff)
  qed
  show ?thesis
    unfolding simulates_def using e r l
    by (simp add: initial_state_def hb_map_empty_def root_def)
qed

lemma remap_identity:
  assumes "\<forall>ob \<in> set obs. \<forall>l \<in> set (links ob). m (objidx l) = objidx l \<and> objidx l \<noteq> INVALID"
  shows "remap_obj_indices m obs = Inr obs"
proof -
  have ok: "\<forall>ob \<in> set obs. \<forall>l \<in> set (links ob). m (objidx l) \<noteq> INVALID" using assms by simp
  have "map (remap_object m) obs = obs"
  proof (rule map_idI)
    fix ob assume ob: "ob \<in> set obs"
    have "map (\<lambda>l. l\<lparr>objidx := m (objidx l)\<rparr>) (links ob) = links ob"
      using assms ob by (intro map_idI) simp
    then show "remap_object m ob = ob" by (simp add: remap_object_def)
  qed
  then show ?thesis using remap_obj_indices_ok[OF ok] by simp
qed

lemma second_finish:
  assumes wf: "well_formed objs" and n1: "0 < length objs"
    and inv: "sort_inv objs dn s1" and qe: "queue s1 = []" and len: "length dn = length objs"
    and sim: "simulates (id_map s1) objs s1 s1'"
  shows "finish_sort g' s1' = Inr (g'\<lparr>objects := sorted_objects objs dn (id_map s1)\<rparr>)"
proof -
  let ?m = "id_map s1"
  have n: "length objs < 2 ^ 32" using wf by (rule well_formed_length)
  have all: "set dn = nodes objs" using n inv len by (rule sort_inv_all)
  have ren: "renaming objs (sorted_objects objs dn ?m) ?m"
    using wf n1 inv qe len by (rule sorted_renaming)
  have im: "?m ` nodes objs = nodes objs" by (rule renamingD(3)[OF ren])
  have "new_id s1 = root objs - of_nat (length objs)" using sort_invD(4)[OF inv] len by simp
  then have ni: "new_id s1' = - 1" using simulatesD(3)[OF sim] by (simp add: root_def)
  have sg: "sorted_graph s1' = map (remap_object ?m) (map (vec_get objs) dn)"
    using simulatesD(2)[OF sim] sort_invD(3)[OF inv] by simp
  have idn: "\<forall>ob \<in> set (sorted_graph s1'). \<forall>l \<in> set (links ob).
               id_map s1' (objidx l) = objidx l \<and> objidx l \<noteq> INVALID"
  proof (intro ballI)
    fix ob l' assume ob: "ob \<in> set (sorted_graph s1')" and l': "l' \<in> set (links ob)"
    from ob sg obtain P where P: "P \<in> set dn" "ob = remap_object ?m (vec_get objs P)" by auto
    then obtain l where l: "l \<in> set (links (vec_get objs P))" "l' = l\<lparr>objidx := ?m (objidx l)\<rparr>"
      using l' by (auto simp: remap_object_def)
    have "objidx l \<in> set (children objs P)" using l(1) by (simp add: children_def)
    then have c: "objidx l \<in> nodes objs" using wf P(1) all children_nodes by blast
    then have pc: "?m (objidx l) \<in> nodes objs" using im by blast
    have "id_map s1' (?m (objidx l)) = ?m (objidx l)" using simulatesD(5)[OF sim] c by blast
    then show "id_map s1' (objidx l') = objidx l' \<and> objidx l' \<noteq> INVALID"
      using l(2) node_not_INVALID[OF n pc] by simp
  qed
  have "remap_obj_indices (id_map s1') (sorted_graph s1') = Inr (sorted_graph s1')"
    using idn by (rule remap_identity)
  then show ?thesis by (simp add: finish_sort_def ni sg sorted_objects_def)
qed

lemma reordered_graph_facts:
  "well_formed reordered_graph" "acyclic (edges reordered_graph)" "root_connected reordered_graph"
proof -
  show wf: "well_formed reordered_graph"
    by (simp add: well_formed_def reordered_graph_def obj_def link_to_def)
  have rt: "reverse_topological reordered_graph" unfolding reverse_topological_code by code_simp
  then show "acyclic (edges reordered_graph)" by (rule reverse_topological_acyclic)
  have "every_node_has_parent reordered_graph" by code_simp
  then show "root_connected reordered_graph"
    using well_formed_length[OF wf] rt by (intro parents_root_connected)
qed

text \<open>C8. The Kahn sort is idempotent: on a well-formed, acyclic, root-connected graph it
completes, and sorting its result again returns the very same object sequence, with the same
link indices.\<close>

theorem sort_kahn_idempotent:
  assumes "well_formed (objects g)" and "acyclic (edges (objects g))"
    and "root_connected (objects g)"
  shows "\<exists>g1. sort_kahn g = Some (Inr g1) \<and> sort_kahn g1 = Some (Inr g1)"
proof (cases "1 < length (objects g)")
  case False
  then have "sort_kahn g = Some (Inr g)" by (simp add: sort_kahn_def)
  then show ?thesis by blast
next
  case True
  let ?objs = "objects g"
  have n1: "0 < length ?objs" using True by (cases ?objs) simp_all
  have hr: "no_link_to_root ?objs" using assms(2) by (rule acyclic_no_link_to_root)
  have i0: "sort_inv ?objs [] (initial_state ?objs)" using assms(1) n1 by (rule sort_inv_initial)
  from kahn_loop_total[OF assms(1) hr i0] obtain dn s1 where
    k1: "kahn_loop ?objs (initial_state ?objs) = Some s1"
    and inv: "sort_inv ?objs dn s1" and qe: "queue s1 = []" by blast
  have len: "length dn = length ?objs" using assms inv qe by (rule sort_complete)
  let ?m = "id_map s1"
  let ?objs' = "sorted_objects ?objs dn ?m"
  let ?g1 = "g\<lparr>objects := ?objs'\<rparr>"
  have f1: "finish_sort g s1 = Inr ?g1"
    using finish_sort_complete[OF assms(1) n1 inv len] by (simp add: sorted_objects_def)
  have r1: "sort_kahn g = Some (Inr ?g1)" using True k1 f1 by (simp add: sort_kahn_def)
  have ren: "renaming ?objs ?objs' ?m" using assms(1) n1 inv qe len by (rule sorted_renaming)
  have wf': "well_formed ?objs'" using assms(1) n1 inv len by (rule sorted_well_formed)
  have s0: "simulates ?m ?objs (initial_state ?objs) (initial_state ?objs')"
    using ren assms(1) wf' by (rule initial_renamed)
  from kahn_loop_renamed[OF assms(1) hr ren i0 s0] obtain sa s1' where
    ka: "kahn_loop ?objs (initial_state ?objs) = Some sa"
    and k2: "kahn_loop ?objs' (initial_state ?objs') = Some s1'"
    and sim: "simulates ?m ?objs sa s1'" by blast
  have "sa = s1" using ka k1 by simp
  then have sim1: "simulates ?m ?objs s1 s1'" using sim by simp
  have f2: "finish_sort ?g1 s1' = Inr (?g1\<lparr>objects := ?objs'\<rparr>)"
    using assms(1) n1 inv qe len sim1 by (rule second_finish)
  have l': "1 < length (objects ?g1)" using True len by (simp add: sorted_objects_def)
  have "sort_kahn ?g1 = Some (Inr ?g1)"
    using l' k2 f2 by (simp add: sort_kahn_def)
  then show ?thesis using r1 by blast
qed

theorem sort_kahn_idempotent_witness:
  "well_formed reordered_graph \<and> acyclic (edges reordered_graph) \<and> root_connected reordered_graph
   \<and> sort_kahn \<lparr>objects = reordered_graph\<rparr>
       = Some (Inr \<lparr>objects = [obj 0 2 [], obj 4 8 [link_to 0], obj 2 4 [], obj 8 12 [link_to 2, link_to 1]]\<rparr>)
   \<and> sort_kahn \<lparr>objects = [obj 0 2 [], obj 4 8 [link_to 0], obj 2 4 [], obj 8 12 [link_to 2, link_to 1]]\<rparr>
       = Some (Inr \<lparr>objects = [obj 0 2 [], obj 4 8 [link_to 0], obj 2 4 [], obj 8 12 [link_to 2, link_to 1]]\<rparr>)"
proof -
  let ?g = "\<lparr>objects = reordered_graph\<rparr>"
  let ?h = "\<lparr>objects = [obj 0 2 [], obj 4 8 [link_to 0], obj 2 4 [], obj 8 12 [link_to 2, link_to 1]]\<rparr>"
  have k: "sort_kahn ?g = Some (Inr ?h)" by code_simp
  from sort_kahn_idempotent[of ?g] reordered_graph_facts obtain g1 where
    g1: "sort_kahn ?g = Some (Inr g1)" "sort_kahn g1 = Some (Inr g1)" by auto
  have "g1 = ?h" using g1(1) k by simp
  then have "sort_kahn ?h = Some (Inr ?h)" using g1(2) by simp
  then show ?thesis using k reordered_graph_facts by simp
qed

section \<open>The positions presented to the oracle\<close>

text \<open>
  The first loop of \<^verbatim>\<open>will_overflow\<close> gives every object the sum of the sizes of the
  objects behind it as its start. When all payloads together have less than \<open>2^32\<close>
  bytes nothing wraps, and in a sequence in reverse topological order no child starts
  before the anchor of a link to it.
\<close>

lemma unat32_lt: "unat (x :: 32 word) < 4294967296"
proof -
  have "uint x < 4294967296" by (rule uint32_lt)
  then have "int (unat x) < int 4294967296" by simp
  then show ?thesis by (simp only: of_nat_less_iff)
qed

lemma advance_position:
  fixes cur :: "32 word" and s :: "64 word"
  shows "unat (ucast ((ucast cur :: 64 word) + s) :: 32 word) = (unat cur + unat s) mod 2 ^ 32"
proof -
  have a: "unat (ucast cur :: 64 word) = unat cur"
    using unat32_lt[of cur] by (simp add: unsigned_ucast_eq take_bit_eq_mod)
  have "unat (ucast ((ucast cur :: 64 word) + s) :: 32 word)
          = unat ((ucast cur :: 64 word) + s) mod 2 ^ 32"
    by (simp add: unsigned_ucast_eq take_bit_eq_mod)
  also have "\<dots> = ((unat cur + unat s) mod 2 ^ 64) mod 2 ^ 32"
    by (simp only: unat_word_ariths a) simp
  also have "\<dots> = (unat cur + unat s) mod 2 ^ 32"
    by (rule mod_mod_cancel) simp
  finally show ?thesis .
qed

lemma positions_frame:
  "key \<notin> of_nat ` set idxs \<Longrightarrow>
   fst (positions objs idxs (sp, ep, cur)) key = sp key
   \<and> fst (snd (positions objs idxs (sp, ep, cur))) key = ep key"
proof (induction idxs arbitrary: sp ep cur)
  case Nil
  then show ?case by simp
next
  case (Cons i idxs)
  have ne: "key \<noteq> of_nat i" and rest: "key \<notin> of_nat ` set idxs" using Cons.prems by auto
  have s: "hb_map_set m (of_nat i) v key = m key" for m v
    using ne by (simp add: hb_map_set_def)
  show ?case using Cons.IH[OF rest] s by (simp add: Let_def)
qed

lemma positions_upto:
  "Suc k \<le> 2 ^ 32 - 1 \<Longrightarrow> i < k \<Longrightarrow>
   unat (fst (positions objs (rev [0..<k]) (sp, ep, cur)) (of_nat i))
     = (unat cur + (\<Sum>j = Suc i..<k. unat (tail (objs ! j) - head (objs ! j)))) mod 2 ^ 32
   \<and> unat (fst (snd (positions objs (rev [0..<k]) (sp, ep, cur))) (of_nat i))
     = (unat cur + (\<Sum>j = i..<k. unat (tail (objs ! j) - head (objs ! j)))) mod 2 ^ 32"
proof (induction k arbitrary: sp ep cur)
  case 0
  then show ?case by simp
next
  case (Suc k)
  let ?sz = "\<lambda>j. unat (tail (objs ! j) - head (objs ! j))"
  define cur1 :: "32 word" where
    "cur1 = ucast ((ucast cur :: 64 word) + (tail (objs ! k) - head (objs ! k)))"
  have kI: "(of_nat k :: 32 word) \<noteq> INVALID"
    using Suc.prems(1) by (intro of_nat_ne_INVALID) simp
  define sp1 where "sp1 = sp(of_nat k := cur)"
  define ep1 where "ep1 = ep(of_nat k := cur1)"
  have e: "positions objs (rev [0..<Suc k]) (sp, ep, cur) = positions objs (rev [0..<k]) (sp1, ep1, cur1)"
    using kI unfolding sp1_def ep1_def cur1_def by (simp add: Let_def hb_map_set_def)
  have c1: "unat cur1 = (unat cur + ?sz k) mod 2 ^ 32" unfolding cur1_def by (rule advance_position)
  show ?case
  proof (cases "i < k")
    case True
    have k': "Suc k \<le> 2 ^ 32 - 1" using Suc.prems(1) by simp
    note ih = Suc.IH[OF k' True, of sp1 ep1 cur1]
    have a: "(\<Sum>j = Suc i..<Suc k. ?sz j) = ?sz k + (\<Sum>j = Suc i..<k. ?sz j)"
      using True by (simp add: sum.atLeastLessThan_Suc)
    have b: "(\<Sum>j = i..<Suc k. ?sz j) = ?sz k + (\<Sum>j = i..<k. ?sz j)"
      using True by (simp add: sum.atLeastLessThan_Suc)
    have m: "((unat cur + ?sz k) mod 2 ^ 32 + x) mod 2 ^ 32 = (unat cur + (?sz k + x)) mod 2 ^ 32" for x
      by (simp add: mod_add_left_eq add.assoc)
    show ?thesis unfolding e a b using ih by (simp only: c1 m)
  next
    case False
    then have ik: "i = k" using Suc.prems(2) by simp
    have inj: "inj_on (of_nat :: nat \<Rightarrow> 32 word) {..<Suc k}"
      using Suc.prems(1) by (intro inj_on_of_nat32) simp
    have "(of_nat k :: 32 word) \<notin> of_nat ` set (rev [0..<k])"
    proof
      assume "(of_nat k :: 32 word) \<in> of_nat ` set (rev [0..<k])"
      then obtain j where j: "j < k" "(of_nat k :: 32 word) = of_nat j" by auto
      have "k = j" using inj j by (auto dest: inj_onD)
      then show False using j(1) by simp
    qed
    from positions_frame[OF this, of objs sp1 ep1 cur1]
    have f: "fst (positions objs (rev [0..<k]) (sp1, ep1, cur1)) (of_nat k) = cur"
      "fst (snd (positions objs (rev [0..<k]) (sp1, ep1, cur1))) (of_nat k) = cur1"
      by (simp_all add: sp1_def ep1_def)
    have "unat cur < 2 ^ 32" using unat32_lt[of cur] by simp
    then have "unat cur mod 2 ^ 32 = unat cur" by simp
    then show ?thesis unfolding e ik f by (simp add: c1)
  qed
qed

lemma sum_le_payload_size:
  "a \<le> length objs \<Longrightarrow>
   (\<Sum>j = a..<length objs. unat (tail (objs ! j) - head (objs ! j))) \<le> payload_size objs"
proof -
  assume "a \<le> length objs"
  have "payload_size objs = (\<Sum>j = 0..<length objs. unat (tail (objs ! j) - head (objs ! j)))"
    by (simp add: payload_size_def sum_list_sum_nth)
  moreover have "(\<Sum>j = a..<length objs. unat (tail (objs ! j) - head (objs ! j)))
                   \<le> (\<Sum>j = 0..<length objs. unat (tail (objs ! j) - head (objs ! j)))"
    by (rule sum_mono2) auto
  ultimately show ?thesis by simp
qed

lemma positions_of:
  assumes n: "length objs < 2 ^ 32 - 1" and t: "payload_size objs < 2 ^ 32" and i: "i < length objs"
  shows "uint (start_positions_of objs (of_nat i))
           = int (\<Sum>j = Suc i..<length objs. unat (tail (objs ! j) - head (objs ! j)))"
    and "uint (end_positions_of objs (of_nat i))
           = int (\<Sum>j = i..<length objs. unat (tail (objs ! j) - head (objs ! j)))"
proof -
  let ?sz = "\<lambda>j. unat (tail (objs ! j) - head (objs ! j))"
  have k: "Suc (length objs) \<le> 2 ^ 32 - 1" using n by simp
  note P = positions_upto[OF k i, of objs hb_map_empty hb_map_empty 0]
  have a: "(\<Sum>j = Suc i..<length objs. ?sz j) < 2 ^ 32"
    using sum_le_payload_size[of "Suc i" objs] i t by simp
  have b: "(\<Sum>j = i..<length objs. ?sz j) < 2 ^ 32"
    using sum_le_payload_size[of i objs] i t by simp
  have "unat (start_positions_of objs (of_nat i)) = (\<Sum>j = Suc i..<length objs. ?sz j)"
    using P a by (simp add: start_positions_of_def)
  then show "uint (start_positions_of objs (of_nat i)) = int (\<Sum>j = Suc i..<length objs. ?sz j)"
    by (simp only: uint_nat)
  have "unat (end_positions_of objs (of_nat i)) = (\<Sum>j = i..<length objs. ?sz j)"
    using P b by (simp add: end_positions_of_def)
  then show "uint (end_positions_of objs (of_nat i)) = int (\<Sum>j = i..<length objs. ?sz j)"
    by (simp only: uint_nat)
qed

lemma reverse_topological_anchor:
  assumes rt: "reverse_topological objs" and n: "length objs < 2 ^ 32 - 1"
    and t: "payload_size objs < 2 ^ 32" and p: "p < length objs"
    and l: "l \<in> set (links (objs ! p))"
  shows "0 \<le> raw_offset (of_nat p) l (start_positions_of objs) (end_positions_of objs)"
proof -
  let ?sz = "\<lambda>j. unat (tail (objs ! j) - head (objs ! j))"
  let ?c = "unat (objidx l)"
  have cp: "?c < p" using rt p l by (simp add: reverse_topological_def)
  then have cl: "?c < length objs" using p by simp
  define A where "A = (\<Sum>j = Suc ?c..<length objs. ?sz j)"
  define B where "B = (\<Sum>j = Suc p..<length objs. ?sz j)"
  define C where "C = (\<Sum>j = p..<length objs. ?sz j)"
  have "uint (start_positions_of objs (of_nat ?c)) = int A"
    unfolding A_def using n t cl by (rule positions_of(1))
  then have sc: "uint (start_positions_of objs (objidx l)) = int A" by simp
  have sp: "uint (start_positions_of objs (of_nat p)) = int B"
    unfolding B_def using n t p by (rule positions_of(1))
  have ep: "uint (end_positions_of objs (of_nat p)) = int C"
    unfolding C_def using n t p by (rule positions_of(2))
  have m1: "B \<le> A" unfolding A_def B_def using cp by (intro sum_mono2) auto
  have m2: "C \<le> A" unfolding A_def C_def using cp by (intro sum_mono2) auto
  show ?thesis
    using m1 m2 by (cases "whence l") (simp_all add: raw_offset_def anchor_position_def sc sp ep)
qed

section \<open>The distance sort on bounded payloads\<close>

text \<open>
  When every payload is shorter than \<open>2^32\<close> bytes, a distance that
  \<^verbatim>\<open>compute_distances\<close> writes is below \<^verbatim>\<open>INT64_MAX\<close>, also after the cut of
  \<open>next_distance\<close> to 32 bits. On a root-connected sequence some unvisited object
  then always has a distance below \<^verbatim>\<open>INT64_MAX\<close>, so that no assertion of
  \<^verbatim>\<open>closest_object\<close> fails and the distance sort completes.
\<close>

lemma sint32_bounds: "- 2147483648 \<le> sint (x :: 32 word) \<and> sint x < 2147483648"
  using sint_ge[of x] sint_lt[of x] by simp

lemma sint_scast_32_64: "sint (scast (x :: 32 word) :: 64 word) = sint x"
  by (simp add: sint_up_scast is_up)

lemma sint_small:
  fixes x :: "64 word"
  assumes "uint x < 4611686018427387904"
  shows "sint x = uint x"
proof -
  have lo: "- (2 ^ 63) \<le> uint x"
  proof -
    have "- (2 ^ 63) \<le> (0::int)" by simp
    also have "0 \<le> uint x" by simp
    finally show ?thesis .
  qed
  have hi: "uint x < 2 ^ 63" using assms by simp
  have "signed_take_bit 63 (uint x) = uint x"
    using lo hi by (rule signed_take_bit_int_eq_self)
  then show ?thesis by (simp add: sint_uint)
qed

lemma weight_value:
  "uint (if narrow then scast (push_bit 16 (1 :: 32 word)) else push_bit 32 (1 :: 64 word) :: 64 word)
     = (if narrow then 65536 else 4294967296)"
  by simp

lemma sum_bounds:
  "- 2147483648 \<le> (a::int) \<Longrightarrow> a < 2147483648 \<Longrightarrow> 0 \<le> b \<Longrightarrow> b < 4294967296 \<Longrightarrow>
   0 \<le> c \<Longrightarrow> c \<le> 4294967296 \<Longrightarrow>
   - 9223372036854775808 \<le> a + (b + c) \<and> a + (b + c) < 9223372036854775807
   \<and> b + c < 4611686018427387904 \<and> b + c < 18446744073709551616"
  by linarith

lemma child_distance_finite:
  fixes sz :: "64 word" and nd :: "32 word"
  assumes sz: "unat sz < 2 ^ 32"
  shows "scast nd + (sz + (if narrow then scast (push_bit 16 (1 :: 32 word)) else push_bit 32 (1 :: 64 word)))
           <s INT64_MAX"
proof -
  define w :: "64 word" where
    "w = (if narrow then scast (push_bit 16 (1 :: 32 word)) else push_bit 32 (1 :: 64 word))"
  have uw: "uint w = (if narrow then 65536 else 4294967296)" unfolding w_def by (rule weight_value)
  have w0: "0 \<le> uint w" by simp
  have w1: "uint w \<le> 4294967296" using uw by (cases narrow) simp_all
  have s0: "0 \<le> uint sz" by simp
  have "int (unat sz) < int 4294967296" using sz by (simp only: of_nat_less_iff) simp
  then have s1: "uint sz < 4294967296" by simp
  note B = sum_bounds[OF conjunct1[OF sint32_bounds[of nd]] conjunct2[OF sint32_bounds[of nd]] s0 s1 w0 w1]
  have "uint (sz + w) = (uint sz + uint w) mod 2 ^ 64" by (simp add: uint_word_ariths)
  also have "\<dots> = uint sz + uint w"
  proof (rule mod_pos_pos_trivial)
    show "0 \<le> uint sz + uint w" using s0 w0 by linarith
    show "uint sz + uint w < 2 ^ 64" using B by simp
  qed
  finally have usw: "uint (sz + w) = uint sz + uint w" .
  have "uint (sz + w) < 4611686018427387904" using B usw by simp
  then have ssw: "sint (sz + w) = uint sz + uint w" using usw by (simp only: sint_small)
  have "sint (scast nd + (sz + w)) = signed_take_bit (LENGTH(64) - 1) (sint (scast nd :: 64 word) + sint (sz + w))"
    by (rule sint_word_add)
  then have "sint (scast nd + (sz + w)) = signed_take_bit 63 (sint nd + (uint sz + uint w))"
    by (simp only: sint_scast_32_64 ssw) simp
  also have "\<dots> = sint nd + (uint sz + uint w)"
  proof (rule signed_take_bit_int_eq_self)
    show "- (2 ^ 63) \<le> sint nd + (uint sz + uint w)" using B by simp
    show "sint nd + (uint sz + uint w) < 2 ^ 63" using B by simp
  qed
  finally have "sint (scast nd + (sz + w)) = sint nd + (uint sz + uint w)" .
  moreover have "sint INT64_MAX = 9223372036854775807" by (simp add: INT64_MAX_def)
  ultimately have "sint (scast nd + (sz + w)) < sint INT64_MAX" using B by simp
  then show ?thesis unfolding w_def by (simp only: word_sless_alt)
qed

lemma relax_links_length: "length (relax_links objs U nd ls d) = length d"
  by (induction ls arbitrary: d) (simp_all add: Let_def)

lemma relax_links_unvisited:
  "v \<notin> set U \<Longrightarrow> dist_get (relax_links objs U nd ls d) v = dist_get d v"
proof (induction ls arbitrary: d)
  case Nil
  then show ?case by simp
next
  case (Cons l ls)
  show ?case
  proof (cases "hb_set_has U (objidx l)")
    case False
    then show ?thesis using Cons.IH[OF Cons.prems] by simp
  next
    case True
    then have "objidx l \<noteq> v" using Cons.prems by (auto simp: hb_set_has_def)
    then have u: "unat (objidx l) \<noteq> unat v" by (simp add: word_unat_eq_iff)
    have upd: "dist_get (d[unat (objidx l) := y]) v = dist_get d v" for y
      using u by (simp add: dist_get_def)
    show ?thesis using Cons.IH[OF Cons.prems] upd True by (simp add: Let_def)
  qed
qed

lemma relax_step_mono:
  "sint (dist_get (if cd <s dist_get d c then d[unat c := cd] else d) v) \<le> sint (dist_get d v)"
proof (cases "cd <s dist_get d c \<and> unat c = unat v \<and> unat v < length d")
  case True
  then have cv: "c = v" by (simp add: word_unat_eq_iff)
  have "dist_get (d[unat c := cd]) v = cd" using True by (simp add: dist_get_def)
  moreover have "sint cd < sint (dist_get d v)" using True cv by (simp add: word_sless_alt)
  ultimately show ?thesis using True by simp
next
  case False
  then have "dist_get (if cd <s dist_get d c then d[unat c := cd] else d) v = dist_get d v"
    by (auto simp: dist_get_def)
  then show ?thesis by simp
qed

lemma relax_links_mono:
  "sint (dist_get (relax_links objs U nd ls d) v) \<le> sint (dist_get d v)"
proof (induction ls arbitrary: d)
  case Nil
  then show ?case by simp
next
  case (Cons l ls)
  show ?case
  proof (cases "hb_set_has U (objidx l)")
    case False
    then show ?thesis using Cons.IH[of d] by simp
  next
    case True
    define cd :: "64 word" where
      "cd = scast nd + (tail (vec_get objs (objidx l)) - head (vec_get objs (objidx l))
               + (if \<not> is_wide l then scast (push_bit 16 (1 :: 32 word))
                  else push_bit 32 (1 :: 64 word)))"
    define d1 where "d1 = (if cd <s dist_get d (objidx l) then d[unat (objidx l) := cd] else d)"
    have e: "relax_links objs U nd (l # ls) d = relax_links objs U nd ls d1"
      using True unfolding d1_def cd_def by (simp add: Let_def)
    have "sint (dist_get d1 v) \<le> sint (dist_get d v)" unfolding d1_def by (rule relax_step_mono)
    then show ?thesis using Cons.IH[of d1] unfolding e by linarith
  qed
qed

lemma relax_links_reached:
  "l \<in> set ls \<Longrightarrow> objidx l \<in> set U \<Longrightarrow> unat (objidx l) < length d \<Longrightarrow>
   \<forall>k \<in> set ls. unat (tail (vec_get objs (objidx k)) - head (vec_get objs (objidx k))) < 2 ^ 32 \<Longrightarrow>
   sint (dist_get (relax_links objs U nd ls d) (objidx l)) < sint INT64_MAX"
proof (induction ls arbitrary: d)
  case Nil
  then show ?case by simp
next
  case (Cons k ls)
  have bk: "unat (tail (vec_get objs (objidx k)) - head (vec_get objs (objidx k))) < 2 ^ 32"
    and bs: "\<forall>k \<in> set ls. unat (tail (vec_get objs (objidx k)) - head (vec_get objs (objidx k))) < 2 ^ 32"
    using Cons.prems(4) by simp_all
  define cd :: "64 word" where
    "cd = scast nd + (tail (vec_get objs (objidx k)) - head (vec_get objs (objidx k))
             + (if \<not> is_wide k then scast (push_bit 16 (1 :: 32 word))
                else push_bit 32 (1 :: 64 word)))"
  define d1 where "d1 = (if cd <s dist_get d (objidx k) then d[unat (objidx k) := cd] else d)"
  have l1: "length d1 = length d" unfolding d1_def by simp
  have fin: "sint cd < sint INT64_MAX"
    using child_distance_finite[OF bk, of nd "\<not> is_wide k"] unfolding cd_def
    by (simp only: word_sless_alt)
  show ?case
  proof (cases "hb_set_has U (objidx k)")
    case False
    then have e: "relax_links objs U nd (k # ls) d = relax_links objs U nd ls d" by simp
    have "l \<noteq> k" using False Cons.prems(2) by (auto simp: hb_set_has_def)
    then have "l \<in> set ls" using Cons.prems(1) by simp
    from Cons.IH[OF this Cons.prems(2,3) bs] show ?thesis unfolding e .
  next
    case True
    have e: "relax_links objs U nd (k # ls) d = relax_links objs U nd ls d1"
      using True unfolding d1_def cd_def by (simp add: Let_def)
    show ?thesis
    proof (cases "l \<in> set ls")
      case True
      have "unat (objidx l) < length d1" using Cons.prems(3) l1 by simp
      from Cons.IH[OF True Cons.prems(2) this bs] show ?thesis unfolding e .
    next
      case False
      then have lk: "l = k" using Cons.prems(1) by simp
      have "sint (dist_get d1 (objidx k)) < sint INT64_MAX"
      proof (cases "cd <s dist_get d (objidx k)")
        case True
        then have "dist_get d1 (objidx k) = cd"
          using Cons.prems(3) lk unfolding d1_def by (simp add: dist_get_def)
        then show ?thesis using fin by simp
      next
        case False
        then have "dist_get d1 (objidx k) = dist_get d (objidx k)" unfolding d1_def by simp
        moreover have "sint (dist_get d (objidx k)) \<le> sint cd"
          using False by (simp add: word_sless_alt)
        ultimately show ?thesis using fin by simp
      qed
      moreover have "sint (dist_get (relax_links objs U nd ls d1) (objidx k)) \<le> sint (dist_get d1 (objidx k))"
        by (rule relax_links_mono)
      ultimately show ?thesis unfolding e lk by linarith
    qed
  qed
qed

lemma crossing_edge:
  "(a, b) \<in> r\<^sup>* \<Longrightarrow> a \<notin> S \<Longrightarrow> b \<in> S \<Longrightarrow> \<exists>p c. (p, c) \<in> r \<and> p \<notin> S \<and> c \<in> S"
proof (induction rule: rtrancl_induct)
  case base
  then show ?case by simp
next
  case (step y z)
  show ?case
  proof (cases "y \<in> S")
    case True
    then show ?thesis using step.IH step.prems by blast
  next
    case False
    then show ?thesis using step.hyps(2) step.prems(2) by blast
  qed
qed

lemma closest_scan_min:
  "closest_scan q d (cd, ci) = (cd', ci') \<Longrightarrow>
   sint cd' \<le> sint cd \<and> (\<forall>u \<in> set q. sint cd' \<le> sint (dist_get d u))"
proof (induction q arbitrary: cd ci)
  case Nil
  then show ?case by simp
next
  case (Cons i q)
  show ?case
  proof (cases "dist_get d i <s cd")
    case True
    then have "closest_scan q d (dist_get d i, i) = (cd', ci')" using Cons.prems by simp
    from Cons.IH[OF this] have a: "sint cd' \<le> sint (dist_get d i)"
      and b: "\<forall>u \<in> set q. sint cd' \<le> sint (dist_get d u)" by simp_all
    have "sint (dist_get d i) < sint cd" using True by (simp add: word_sless_alt)
    then show ?thesis using a b by auto
  next
    case False
    then have "closest_scan q d (cd, ci) = (cd', ci')" using Cons.prems by simp
    from Cons.IH[OF this] have a: "sint cd' \<le> sint cd"
      and b: "\<forall>u \<in> set q. sint cd' \<le> sint (dist_get d u)" by simp_all
    have "sint cd \<le> sint (dist_get d i)" using False by (simp add: word_sless_alt)
    then show ?thesis using a b by auto
  qed
qed

lemma closest_object_found:
  assumes u: "u \<in> set q" and f: "sint (dist_get d u) < sint INT64_MAX" and ni: "INVALID \<notin> set q"
  shows "\<exists>i. closest_object q d = Inr i \<and> i \<in> set q \<and> sint (dist_get d i) < sint INT64_MAX"
proof -
  obtain cd' ci' where r: "closest_scan q d (INT64_MAX, - 1) = (cd', ci')"
    by (cases "closest_scan q d (INT64_MAX, - 1)") blast
  from closest_scan_min[OF r] u have "sint cd' \<le> sint (dist_get d u)" by blast
  then have lt: "sint cd' < sint INT64_MAX" using f by linarith
  then have "cd' \<noteq> INT64_MAX" by auto
  with closest_scan_spec[OF r] have m: "ci' \<in> set q" and v: "cd' = dist_get d ci'" by auto
  have "ci' \<noteq> - 1" using m ni by (auto simp: INVALID_def)
  then have "closest_object q d = Inr ci'" using r by (simp add: closest_object_def)
  then show ?thesis using m v lt by auto
qed

lemma vec_get_bounded:
  assumes "payload_bounded objs"
  shows "unat (tail (vec_get objs c) - head (vec_get objs c)) < 2 ^ 32"
proof (cases "unat c < length objs")
  case True
  then have "vec_get objs c \<in> set objs" by (simp add: vec_get_def)
  then show ?thesis using assms by (simp add: payload_bounded_def)
next
  case False
  then show ?thesis by (simp add: vec_get_def null_object_def)
qed

lemma dijkstra_loop_succeeds:
  assumes wf: "well_formed objs" and pb: "payload_bounded objs" and rc: "root_connected objs"
    and n1: "0 < length objs"
  shows "set U \<subseteq> nodes objs \<Longrightarrow> length d = length objs \<Longrightarrow>
    \<forall>v \<in> nodes objs - set U. sint (dist_get d v) < sint INT64_MAX \<Longrightarrow>
    \<forall>p \<in> nodes objs - set U. \<forall>c \<in> set (children objs p).
       c \<in> set U \<longrightarrow> sint (dist_get d c) < sint INT64_MAX \<Longrightarrow>
    root objs \<in> set U \<longrightarrow> sint (dist_get d (root objs)) < sint INT64_MAX \<Longrightarrow>
    \<exists>d'. dijkstra_loop objs U d = Inr d' \<and> length d' = length objs
        \<and> (\<forall>v \<in> nodes objs. sint (dist_get d' v) < sint INT64_MAX)"
proof (induction "length U" arbitrary: U d rule: less_induct)
  case less
  have n: "length objs < 2 ^ 32" using wf by (rule well_formed_length)
  note sub = less.prems(1) and len = less.prems(2) and vis = less.prems(3)
    and fr = less.prems(4) and rt = less.prems(5)
  show ?case
  proof (cases "U = []")
    case True
    have "dijkstra_loop objs U d = Inr d" by (subst dijkstra_loop.simps) (simp add: True)
    then show ?thesis using len vis True by simp
  next
    case False
    then obtain x where x: "x \<in> set U" by (cases U) auto
    have "\<exists>u \<in> set U. sint (dist_get d u) < sint INT64_MAX"
    proof (cases "root objs \<in> set U")
      case True
      then show ?thesis using rt by blast
    next
      case False
      have "x \<in> nodes objs" using x sub by blast
      then have "(root objs, x) \<in> (edges objs)\<^sup>*"
        using rc by (simp add: root_connected_def reachable_def)
      from crossing_edge[OF this False x] obtain p c where
        e: "(p, c) \<in> edges objs" and p: "p \<notin> set U" and c: "c \<in> set U" by blast
      have "p \<in> nodes objs" and "c \<in> set (children objs p)" using e by (auto simp: edges_def)
      then show ?thesis using fr p c by blast
    qed
    then obtain u where u: "u \<in> set U" "sint (dist_get d u) < sint INT64_MAX" by blast
    have ni: "INVALID \<notin> set U" using sub node_not_INVALID[OF n] by blast
    from closest_object_found[OF u ni] obtain nxt where
      co: "closest_object U d = Inr nxt" and nm: "nxt \<in> set U"
      and nf: "sint (dist_get d nxt) < sint INT64_MAX" by blast
    have nn: "nxt \<in> nodes objs" using nm sub by blast
    let ?u = "hb_set_del nxt U"
    let ?nd = "ucast (dist_get d nxt) :: 32 word"
    let ?ls = "links (vec_get objs nxt)"
    let ?d = "relax_links objs ?u ?nd ?ls d"
    have e: "dijkstra_loop objs U d = dijkstra_loop objs ?u ?d"
      by (subst dijkstra_loop.simps) (simp add: False co Let_def)
    have su: "set ?u = set U - {nxt}" by (auto simp: hb_set_del_def)
    have m: "length ?u < length U" using nm by (simp add: hb_set_del_def length_removeAll_less)
    have a1: "set ?u \<subseteq> nodes objs" using sub su by blast
    have a2: "length ?d = length objs" using len by (simp add: relax_links_length)
    have same: "dist_get ?d v = dist_get d v" if "v \<notin> set ?u" for v
      using that by (rule relax_links_unvisited)
    have a3: "\<forall>v \<in> nodes objs - set ?u. sint (dist_get ?d v) < sint INT64_MAX"
    proof
      fix v assume v: "v \<in> nodes objs - set ?u"
      then have "v = nxt \<or> v \<in> nodes objs - set U" using su by blast
      then have "sint (dist_get d v) < sint INT64_MAX" using nf vis by blast
      then show "sint (dist_get ?d v) < sint INT64_MAX" using same[of v] v by simp
    qed
    have bnd: "\<forall>k \<in> set ?ls. unat (tail (vec_get objs (objidx k)) - head (vec_get objs (objidx k))) < 2 ^ 32"
      using vec_get_bounded[OF pb] by blast
    have a4: "\<forall>p \<in> nodes objs - set ?u. \<forall>c \<in> set (children objs p).
       c \<in> set ?u \<longrightarrow> sint (dist_get ?d c) < sint INT64_MAX"
    proof (intro ballI impI)
      fix p c assume p: "p \<in> nodes objs - set ?u" and c: "c \<in> set (children objs p)"
        and cu: "c \<in> set ?u"
      show "sint (dist_get ?d c) < sint INT64_MAX"
      proof (cases "p = nxt")
        case True
        then obtain l where l: "l \<in> set ?ls" "objidx l = c" using c by (auto simp: children_def)
        have "c \<in> nodes objs" using a1 cu by blast
        then have "unat (objidx l) < length d" using l(2) len by (simp add: nodes_def)
        from relax_links_reached[OF l(1) _ this bnd, of ?u ?nd] cu l(2) show ?thesis by simp
      next
        case False
        then have "p \<in> nodes objs - set U" using p su by blast
        moreover have "c \<in> set U" using cu su by blast
        ultimately have "sint (dist_get d c) < sint INT64_MAX" using fr c by blast
        moreover have "sint (dist_get ?d c) \<le> sint (dist_get d c)" by (rule relax_links_mono)
        ultimately show ?thesis by linarith
      qed
    qed
    have a5: "root objs \<in> set ?u \<longrightarrow> sint (dist_get ?d (root objs)) < sint INT64_MAX"
    proof
      assume "root objs \<in> set ?u"
      then have "root objs \<in> set U" using su by blast
      then have "sint (dist_get d (root objs)) < sint INT64_MAX" using rt by blast
      moreover have "sint (dist_get ?d (root objs)) \<le> sint (dist_get d (root objs))"
        by (rule relax_links_mono)
      ultimately show "sint (dist_get ?d (root objs)) < sint INT64_MAX" by linarith
    qed
    from less.hyps[OF m a1 a2 a3 a4 a5] show ?thesis unfolding e .
  qed
qed

lemma compute_distances_succeeds:
  assumes wf: "well_formed objs" and pb: "payload_bounded objs" and rc: "root_connected objs"
    and n1: "0 < length objs"
  shows "\<exists>d. compute_distances objs = Inr d
           \<and> (\<forall>v \<in> nodes objs. sint (dist_get d v) < sint INT64_MAX)"
proof -
  have n: "length objs < 2 ^ 32" using wf by (rule well_formed_length)
  let ?U = "hb_set_add_range 0 (of_nat (length objs) - 1) []"
  let ?d = "(replicate (length objs) INT64_MAX)[unat (of_nat (length objs) - 1 :: 32 word) := 0]"
  have U: "set ?U = nodes objs" using n1 n by (rule unvisited_initial)
  have r: "unat (of_nat (length objs) - 1 :: 32 word) = unat (root objs)" by (simp add: root_def)
  have ur: "unat (root objs) < length objs" using unat_root[OF n1 n] n1 by simp
  have "dist_get ?d (root objs) = 0" using ur by (simp add: dist_get_def r)
  then have a5: "root objs \<in> set ?U \<longrightarrow> sint (dist_get ?d (root objs)) < sint INT64_MAX"
    by (simp add: INT64_MAX_def)
  have "\<exists>d'. dijkstra_loop objs ?U ?d = Inr d' \<and> length d' = length objs
        \<and> (\<forall>v \<in> nodes objs. sint (dist_get d' v) < sint INT64_MAX)"
    using wf pb rc n1 _ _ _ _ a5 by (rule dijkstra_loop_succeeds) (simp_all add: U)
  then show ?thesis by (auto simp: compute_distances_def Let_def)
qed

lemma distance_loop_succeeds:
  assumes wf: "well_formed objs" and hr: "no_link_to_root objs"
    and fin: "\<forall>v \<in> nodes objs. sint (dist_get d v) < sint INT64_MAX"
  shows "sort_inv objs dn s \<Longrightarrow>
         \<exists>dn' s'. distance_loop objs d s = Some (Inr s') \<and> sort_inv objs dn' s' \<and> queue s' = []"
proof (induction "length objs - length dn" arbitrary: dn s rule: less_induct)
  case less
  have n: "length objs < 2 ^ 32" using wf by (rule well_formed_length)
  show ?case
  proof (cases "queue s = []")
    case True
    then have "distance_loop objs d s = Some (Inr s)" by (subst distance_loop.simps) simp
    then show ?thesis using less.prems True by blast
  next
    case False
    then obtain u where u: "u \<in> set (queue s)" by (cases "queue s") auto
    have qs: "set (queue s) \<subseteq> nodes objs" using sort_invD(2)[OF less.prems] by simp
    have uf: "sint (dist_get d u) < sint INT64_MAX" using fin u qs by blast
    have ni: "INVALID \<notin> set (queue s)" using qs node_not_INVALID[OF n] by blast
    from closest_object_found[OF u uf ni] obtain nxt where
      Inr: "closest_object (queue s) d = Inr nxt" by blast
    let ?rest = "hb_set_del nxt (queue s)"
    let ?s = "visit hb_set_add objs nxt ?rest s"
    have nx: "nxt \<in> set (queue s)" using Inr by (rule closest_object_member)
    have dq: "distinct (queue s)" using less.prems by (simp add: sort_inv_def)
    have inv': "sort_inv objs (dn @ [nxt]) ?s"
      using wf hr _ _ less.prems nx
    proof (rule visit_inv)
      show "set ?rest = set (queue s) - {nxt}" by (auto simp: hb_set_del_def)
      show "distinct ?rest" using dq by (simp add: hb_set_del_def distinct_removeAll)
    qed (simp_all add: hb_set_add_set hb_set_add_distinct)
    have "length dn + length (queue s) \<le> length objs" using n less.prems by (rule sort_inv_length)
    moreover have "queue s \<noteq> []" using False .
    ultimately have m: "length objs - length (dn @ [nxt]) < length objs - length dn"
      by (cases "queue s") simp_all
    have e: "distance_loop objs d s = distance_loop objs d ?s"
      using False Inr by (subst distance_loop.simps) simp
    from less.hyps[OF m inv'] show ?thesis unfolding e .
  qed
qed

lemma sort_shortest_distance_succeeds:
  assumes wf: "well_formed (objects g)" and ac: "acyclic (edges (objects g))"
    and rc: "root_connected (objects g)" and pb: "payload_bounded (objects g)"
  shows "\<exists>g'. sort_shortest_distance g = Some (Inr g')"
proof (cases "1 < length (objects g)")
  case False
  then show ?thesis by (simp add: sort_shortest_distance_def)
next
  case True
  have n1: "0 < length (objects g)" using True by (cases "objects g") simp_all
  have hr: "no_link_to_root (objects g)" using ac by (rule acyclic_no_link_to_root)
  from compute_distances_succeeds[OF wf pb rc n1] obtain d where
    d: "compute_distances (objects g) = Inr d"
    and fin: "\<forall>v \<in> nodes (objects g). sint (dist_get d v) < sint INT64_MAX" by blast
  have i0: "sort_inv (objects g) [] (initial_state (objects g))" using wf n1 by (rule sort_inv_initial)
  from distance_loop_succeeds[OF wf hr fin i0] obtain dn s where
    r: "distance_loop (objects g) d (initial_state (objects g)) = Some (Inr s)"
    and inv: "sort_inv (objects g) dn s" and qe: "queue s = []" by blast
  have "sort_shortest_distance g = Some (finish_sort g s)"
    using True d r by (simp add: sort_shortest_distance_def)
  then show ?thesis using sorted_result(1)[OF wf ac rc True inv qe] by simp
qed

section \<open>The graph after the Kahn sort\<close>

lemma renaming_nodes: "renaming objs objs' \<pi> \<Longrightarrow> nodes objs' = nodes objs"
  using renamingD(1)[of objs objs' \<pi>] by (simp add: nodes_def)

lemma renaming_root: "renaming objs objs' \<pi> \<Longrightarrow> root objs' = root objs"
  using renamingD(1)[of objs objs' \<pi>] by (simp add: root_def)

lemma renaming_edges:
  assumes ren: "renaming objs objs' \<pi>" and e: "(p, c) \<in> edges objs"
  shows "(\<pi> p, \<pi> c) \<in> edges objs'"
proof -
  have p: "p \<in> nodes objs" and c: "c \<in> set (children objs p)" using e by (auto simp: edges_def)
  have "\<pi> p \<in> nodes objs" using renamingD(3)[OF ren] p by blast
  then have pn: "\<pi> p \<in> nodes objs'" using renaming_nodes[OF ren] by simp
  have "vec_get objs' (\<pi> p) = remap_object \<pi> (vec_get objs p)" using renamingD(5)[OF ren] p by blast
  then have "children objs' (\<pi> p) = map \<pi> (children objs p)"
    by (simp add: children_def remap_object_def comp_def)
  then have "\<pi> c \<in> set (children objs' (\<pi> p))" using c by simp
  then show ?thesis using pn by (simp add: edges_def)
qed

lemma renaming_reachable:
  assumes ren: "renaming objs objs' \<pi>"
  shows "reachable objs v \<Longrightarrow> reachable objs' (\<pi> v)"
  unfolding reachable_def
proof (induction rule: rtrancl_induct)
  case base
  have "\<pi> (root objs) = root objs'" using renamingD(4)[OF ren] renaming_root[OF ren] by simp
  then show ?case by simp
next
  case (step y z)
  have "(\<pi> y, \<pi> z) \<in> edges objs'" using ren step.hyps(2) by (rule renaming_edges)
  then show ?case using step.IH by (rule rtrancl_into_rtrancl[rotated])
qed

lemma renaming_root_connected:
  assumes ren: "renaming objs objs' \<pi>" and rc: "root_connected objs"
  shows "root_connected objs'"
  unfolding root_connected_def
proof
  fix v assume "v \<in> nodes objs'"
  then have "v \<in> \<pi> ` nodes objs" using renaming_nodes[OF ren] renamingD(3)[OF ren] by simp
  then obtain u where u: "u \<in> nodes objs" "v = \<pi> u" by blast
  have "reachable objs u" using rc u(1) by (simp add: root_connected_def)
  then show "reachable objs' v" using renaming_reachable[OF ren] u(2) by simp
qed

lemma sorted_payload_bounded:
  assumes "payload_bounded objs"
  shows "payload_bounded (sorted_objects objs dn m)"
  unfolding payload_bounded_def
proof
  fix ob assume "ob \<in> set (sorted_objects objs dn m)"
  then obtain v where "ob = remap_object m (vec_get objs v)" by (auto simp: sorted_objects_def)
  then show "unat (tail ob - head ob) < 2 ^ 32"
    using vec_get_bounded[OF assms, of v] by (simp add: remap_object_def)
qed

lemma sort_kahn_preserves:
  assumes wf: "well_formed (objects g)" and ac: "acyclic (edges (objects g))"
    and rc: "root_connected (objects g)"
  shows "\<exists>g1. sort_kahn g = Some (Inr g1) \<and> well_formed (objects g1)
           \<and> acyclic (edges (objects g1)) \<and> root_connected (objects g1)
           \<and> (payload_bounded (objects g) \<longrightarrow> payload_bounded (objects g1))"
proof (cases "1 < length (objects g)")
  case False
  then have "sort_kahn g = Some (Inr g)" by (simp add: sort_kahn_def)
  then show ?thesis using wf ac rc by blast
next
  case True
  let ?objs = "objects g"
  have n1: "0 < length ?objs" using True by (cases ?objs) simp_all
  have hr: "no_link_to_root ?objs" using ac by (rule acyclic_no_link_to_root)
  from sort_kahn_run[OF wf hr True] obtain dn s where
    r: "sort_kahn g = Some (finish_sort g s)" and inv: "sort_inv ?objs dn s"
    and qe: "queue s = []" by blast
  note R = sorted_result[OF wf ac rc True inv qe]
  let ?objs' = "sorted_objects ?objs dn (id_map s)"
  have len: "length dn = length ?objs" using wf ac rc inv qe by (rule sort_complete)
  have ren: "renaming ?objs ?objs' (id_map s)" using wf n1 inv qe len by (rule sorted_renaming)
  have k: "sort_kahn g = Some (Inr (g\<lparr>objects := ?objs'\<rparr>))" using r R(1) by simp
  have a: "acyclic (edges ?objs')" using R(2) by (rule reverse_topological_acyclic)
  have c: "root_connected ?objs'" using ren rc by (rule renaming_root_connected)
  have b: "payload_bounded ?objs \<longrightarrow> payload_bounded ?objs'" using sorted_payload_bounded by blast
  show ?thesis using k R(3) a c b by (intro exI[of _ "g\<lparr>objects := ?objs'\<rparr>"]) simp
qed

section \<open>The answers of the oracle and the emission\<close>

lemma overflow_in_links_error:
  "overflow_in_links p ls sp ep = Inl e \<Longrightarrow> e = OffsetUnderflow"
  by (induction ls) (auto simp: compute_offset_def Let_def split: sum.splits if_splits whence_t.splits)

lemma overflow_in_objects_error:
  "overflow_in_objects objs idxs sp ep = Inl e \<Longrightarrow> e = OffsetUnderflow"
  by (induction idxs) (auto dest: overflow_in_links_error split: sum.splits bool.splits if_splits)

lemma will_overflow_error: "will_overflow g = Inl e \<Longrightarrow> e = OffsetUnderflow"
  by (auto simp: will_overflow_def Let_def dest: overflow_in_objects_error split: prod.splits sum.splits)

lemma will_overflow_cases:
  "will_overflow g = Inl OffsetUnderflow \<or> will_overflow g = Inr (False, g)
   \<or> will_overflow g = Inr (True, g)"
proof (cases "will_overflow g")
  case (Inl e)
  then show ?thesis using will_overflow_error[OF Inl] by simp
next
  case (Inr r)
  then show ?thesis by (auto simp: will_overflow_def Let_def split: prod.splits sum.splits)
qed

lemma serialize_objects_room:
  "payload_size objs \<le> room c \<Longrightarrow>
   \<exists>c'. serialize_objects mem objs c = Inr c' \<and> length (packed c') = length (packed c) + length objs
       \<and> ended c' = ended c \<and> current c' = current c \<and> room c' = room c - payload_size objs"
proof (induction objs arbitrary: c)
  case Nil
  then show ?case by (simp add: payload_size_def)
next
  case (Cons ob rest)
  let ?sz = "tail ob - head ob"
  have r1: "unat ?sz \<le> room c" and r2: "payload_size rest \<le> room c - unat ?sz"
    using Cons.prems by (simp_all add: payload_size_def)
  let ?t0 = "\<lparr>bytes = replicate (unat ?sz) 0, plinks = []\<rparr>"
  let ?c2 = "c\<lparr>room := room c - unat ?sz, current := ?t0 # current c\<rparr>"
  have al: "allocate_size (push c) ?sz = Some (0, ?c2)"
    using r1 by (simp add: allocate_size_def push_def on_top_def)
  let ?c3 = "on_top (\<lambda>t. t\<lparr>bytes := write_bytes 0 (payload mem ob) (bytes t)\<rparr>) ?c2"
  obtain t3 where c3: "current ?c3 = t3 # current c" and p3: "packed ?c3 = packed c"
    and e3: "ended ?c3 = ended c" and m3: "room ?c3 = room c - unat ?sz"
    by (simp add: on_top_def)
  from fold_serialize_link[OF c3, of 0 "links ob"] obtain bs where
    c4: "fold (\<lambda>link. serialize_link link 0) (links ob) ?c3 =
       ?c3\<lparr>current := t3\<lparr>bytes := bs, plinks := plinks t3 @ map (emit_link 0) (links ob)\<rparr> # current c\<rparr>"
    by blast
  let ?c5 = "pop_pack (fold (\<lambda>link. serialize_link link 0) (links ob) ?c3) False"
  have q: "length (packed ?c5) = length (packed c) + 1" "ended ?c5 = ended c"
    "current ?c5 = current c" "room ?c5 = room c - unat ?sz"
    by (simp_all add: c4 pop_pack_def p3 e3 m3)
  have e: "serialize_objects mem (ob # rest) c = serialize_objects mem rest ?c5"
    using al by (simp add: Let_def)
  have "payload_size rest \<le> room ?c5" using r2 q(4) by simp
  from Cons.IH[OF this] obtain c' where
    c': "serialize_objects mem rest ?c5 = Inr c'" "length (packed c') = length (packed ?c5) + length rest"
    "ended c' = ended ?c5" "current c' = current ?c5" "room c' = room ?c5 - payload_size rest" by blast
  have "room c' = room c - payload_size (ob # rest)" using c'(5) q(4) by (simp add: payload_size_def)
  then show ?case using e c' q by simp
qed

lemma serialize_complete:
  assumes "payload_size (objects g) \<le> room c"
  shows "ended (serialize mem g c) \<and> length (packed (serialize mem g c)) = length (objects g)"
proof -
  have "payload_size (objects g) \<le> room (start_serialize c)" using assms by (simp add: start_serialize_def)
  from serialize_objects_room[OF this, of mem] obtain c' where
    "serialize_objects mem (objects g) (start_serialize c) = Inr c'"
    "length (packed c') = length (packed (start_serialize c)) + length (objects g)" by blast
  then show ?thesis by (simp add: serialize_def end_serialize_def start_serialize_def)
qed

section \<open>Properties of the driver\<close>

lemma sort_shortest_distance_returns:
  assumes wf: "well_formed (objects g)" and ac: "acyclic (edges (objects g))"
    and rc: "root_connected (objects g)"
  shows "sort_shortest_distance g = Some (Inl GraphStructureError)
         \<or> (\<exists>g'. sort_shortest_distance g = Some (Inr g'))"
proof (cases "1 < length (objects g)")
  case False
  then show ?thesis by (simp add: sort_shortest_distance_def)
next
  case True
  have hr: "no_link_to_root (objects g)" using ac by (rule acyclic_no_link_to_root)
  from sort_shortest_distance_run[OF wf hr True] show ?thesis
  proof
    assume "sort_shortest_distance g = Some (Inl GraphStructureError)"
    then show ?thesis by blast
  next
    assume "\<exists>dn s. sort_shortest_distance g = Some (finish_sort g s)
              \<and> sort_inv (objects g) dn s \<and> queue s = []"
    then obtain dn s where r: "sort_shortest_distance g = Some (finish_sort g s)"
      and inv: "sort_inv (objects g) dn s" and qe: "queue s = []" by blast
    show ?thesis using r sorted_result(1)[OF wf ac rc True inv qe] by simp
  qed
qed

text \<open>
  C1 (as amended). On a well-formed, acyclic, root-connected input the driver first
  runs the Kahn sort, which completes. The oracle then fails with \<open>OffsetUnderflow\<close>,
  reports no overflow or reports an overflow. If it fails, the driver ends with this
  error and emits nothing. If it reports no overflow, the result is the re-emission of
  the Kahn-sorted graph. If it reports an overflow, the distance sort runs once on the
  Kahn-sorted graph: it completes and its result is re-emitted, or, which can only
  happen when some payload has \<open>2^32\<close> bytes or more, it fails with
  \<open>GraphStructureError\<close> and the driver ends with this error.
\<close>

theorem hb_resolve_overflows_strategy:
  assumes "graph_t_new entries = Inr g" and "well_formed (objects g)"
    and "acyclic (edges (objects g))" and "root_connected (objects g)"
  shows "\<exists>g1. sort_kahn g = Some (Inr g1)
     \<and> (will_overflow g1 = Inl OffsetUnderflow \<or> will_overflow g1 = Inr (False, g1)
          \<or> will_overflow g1 = Inr (True, g1))
     \<and> (will_overflow g1 = Inl OffsetUnderflow \<longrightarrow>
           hb_resolve_overflows mem entries c = Some (Inl OffsetUnderflow))
     \<and> (will_overflow g1 = Inr (False, g1) \<longrightarrow>
           hb_resolve_overflows mem entries c = Some (Inr (serialize mem g1 c)))
     \<and> (will_overflow g1 = Inr (True, g1) \<longrightarrow>
           (\<exists>g3. sort_shortest_distance g1 = Some (Inr g3)
              \<and> hb_resolve_overflows mem entries c = Some (Inr (serialize mem g3 c)))
           \<or> (\<not> payload_bounded (objects g)
               \<and> sort_shortest_distance g1 = Some (Inl GraphStructureError)
               \<and> hb_resolve_overflows mem entries c = Some (Inl GraphStructureError)))"
proof -
  from sort_kahn_preserves[OF assms(2,3,4)] obtain g1 where
    k: "sort_kahn g = Some (Inr g1)" and wf1: "well_formed (objects g1)"
    and ac1: "acyclic (edges (objects g1))" and rc1: "root_connected (objects g1)"
    and pb1: "payload_bounded (objects g) \<longrightarrow> payload_bounded (objects g1)" by blast
  have A: "hb_resolve_overflows mem entries c = Some (Inl OffsetUnderflow)"
    if "will_overflow g1 = Inl OffsetUnderflow"
    using assms(1) k that by (simp add: hb_resolve_overflows_def)
  have B: "hb_resolve_overflows mem entries c = Some (Inr (serialize mem g1 c))"
    if "will_overflow g1 = Inr (False, g1)"
    using assms(1) k that by (simp add: hb_resolve_overflows_def)
  have C: "(\<exists>g3. sort_shortest_distance g1 = Some (Inr g3)
              \<and> hb_resolve_overflows mem entries c = Some (Inr (serialize mem g3 c)))
           \<or> (\<not> payload_bounded (objects g)
               \<and> sort_shortest_distance g1 = Some (Inl GraphStructureError)
               \<and> hb_resolve_overflows mem entries c = Some (Inl GraphStructureError))"
    if w: "will_overflow g1 = Inr (True, g1)"
  proof (cases "\<exists>g3. sort_shortest_distance g1 = Some (Inr g3)")
    case True
    then obtain g3 where d: "sort_shortest_distance g1 = Some (Inr g3)" by blast
    have "hb_resolve_overflows mem entries c = Some (Inr (serialize mem g3 c))"
      using assms(1) k w d by (simp add: hb_resolve_overflows_def)
    then show ?thesis using d by blast
  next
    case False
    then have d: "sort_shortest_distance g1 = Some (Inl GraphStructureError)"
      using sort_shortest_distance_returns[OF wf1 ac1 rc1] by blast
    have "\<not> payload_bounded (objects g1)"
      using False sort_shortest_distance_succeeds[OF wf1 ac1 rc1] by blast
    then have np: "\<not> payload_bounded (objects g)" using pb1 by blast
    have "hb_resolve_overflows mem entries c = Some (Inl GraphStructureError)"
      using assms(1) k w d by (simp add: hb_resolve_overflows_def)
    then show ?thesis using np d by blast
  qed
  show ?thesis using k will_overflow_cases[of g1] A B C by blast
qed

lemma overflow_graph_facts:
  "well_formed overflow_graph" "acyclic (edges overflow_graph)" "root_connected overflow_graph"
proof -
  show wf: "well_formed overflow_graph"
    by (simp add: well_formed_def overflow_graph_def obj_def link_to_def)
  have rt: "reverse_topological overflow_graph" unfolding reverse_topological_code by code_simp
  then show "acyclic (edges overflow_graph)" by (rule reverse_topological_acyclic)
  have "every_node_has_parent overflow_graph" by code_simp
  then show "root_connected overflow_graph"
    using well_formed_length[OF wf] rt by (intro parents_root_connected)
qed

lemma bias_graph_facts:
  "well_formed bias_graph" "acyclic (edges bias_graph)" "root_connected bias_graph"
proof -
  show wf: "well_formed bias_graph"
    by (simp add: well_formed_def bias_graph_def biased_link_def obj_def)
  have rt: "reverse_topological bias_graph" unfolding reverse_topological_code by code_simp
  then show "acyclic (edges bias_graph)" by (rule reverse_topological_acyclic)
  have "every_node_has_parent bias_graph" by code_simp
  then show "root_connected bias_graph"
    using well_formed_length[OF wf] rt by (intro parents_root_connected)
qed

lemma huge_graph_facts:
  "well_formed huge_graph" "acyclic (edges huge_graph)" "root_connected huge_graph"
proof -
  show wf: "well_formed huge_graph"
    by (simp add: well_formed_def huge_graph_def obj_def link_to_def)
  have rt: "reverse_topological huge_graph" unfolding reverse_topological_code by code_simp
  then show "acyclic (edges huge_graph)" by (rule reverse_topological_acyclic)
  have "every_node_has_parent huge_graph" by code_simp
  then show "root_connected huge_graph"
    using well_formed_length[OF wf] rt by (intro parents_root_connected)
qed

lemma payload_facts:
  "payload_bounded truncation_graph" "payload_bounded overflow_graph"
  "\<not> payload_bounded huge_graph"
  "payload_size truncation_graph \<le> room roomy_sink"
  "payload_size [obj 4 80004 [], obj 0 4 [], obj 80004 80008 [link_to 0, link_to 1]] \<le> room roomy_sink"
  by (simp_all add: payload_bounded_def payload_size_def overflow_graph_def truncation_graph_def
        huge_graph_def obj_def roomy_sink_def)

text \<open>
  Witness for C1: \<open>truncation_graph\<close>, for which the oracle reports no overflow;
  \<open>overflow_graph\<close>, whose root links through narrow fields to an object of 80000
  bytes and to an object behind it, for which the oracle reports an overflow and the
  distance sort completes; \<open>bias_graph\<close>, on which the oracle fails; and
  \<open>huge_graph\<close>, on which the distance sort fails. In the first two runs the sink
  has room for all payloads and the emission runs to its end.
\<close>

theorem hb_resolve_overflows_strategy_witness:
  "graph_t_new (map Some truncation_graph) = Inr \<lparr>objects = truncation_graph\<rparr>
   \<and> well_formed truncation_graph \<and> acyclic (edges truncation_graph) \<and> root_connected truncation_graph
   \<and> sort_kahn \<lparr>objects = truncation_graph\<rparr> = Some (Inr \<lparr>objects = truncation_graph\<rparr>)
   \<and> will_overflow \<lparr>objects = truncation_graph\<rparr> = Inr (False, \<lparr>objects = truncation_graph\<rparr>)
   \<and> hb_resolve_overflows sample_memory (map Some truncation_graph) roomy_sink
       = Some (Inr (serialize sample_memory \<lparr>objects = truncation_graph\<rparr> roomy_sink))
   \<and> ended (serialize sample_memory \<lparr>objects = truncation_graph\<rparr> roomy_sink)
   \<and> graph_t_new (map Some overflow_graph) = Inr \<lparr>objects = overflow_graph\<rparr>
   \<and> well_formed overflow_graph \<and> acyclic (edges overflow_graph) \<and> root_connected overflow_graph
   \<and> payload_bounded overflow_graph
   \<and> sort_kahn \<lparr>objects = overflow_graph\<rparr> = Some (Inr \<lparr>objects = overflow_graph\<rparr>)
   \<and> will_overflow \<lparr>objects = overflow_graph\<rparr> = Inr (True, \<lparr>objects = overflow_graph\<rparr>)
   \<and> sort_shortest_distance \<lparr>objects = overflow_graph\<rparr>
       = Some (Inr \<lparr>objects = [obj 4 80004 [], obj 0 4 [], obj 80004 80008 [link_to 0, link_to 1]]\<rparr>)
   \<and> hb_resolve_overflows sample_memory (map Some overflow_graph) roomy_sink
       = Some (Inr (serialize sample_memory
            \<lparr>objects = [obj 4 80004 [], obj 0 4 [], obj 80004 80008 [link_to 0, link_to 1]]\<rparr> roomy_sink))
   \<and> ended (serialize sample_memory
            \<lparr>objects = [obj 4 80004 [], obj 0 4 [], obj 80004 80008 [link_to 0, link_to 1]]\<rparr> roomy_sink)
   \<and> graph_t_new (map Some bias_graph) = Inr \<lparr>objects = bias_graph\<rparr>
   \<and> well_formed bias_graph \<and> acyclic (edges bias_graph) \<and> root_connected bias_graph
   \<and> sort_kahn \<lparr>objects = bias_graph\<rparr> = Some (Inr \<lparr>objects = bias_graph\<rparr>)
   \<and> will_overflow \<lparr>objects = bias_graph\<rparr> = Inl OffsetUnderflow
   \<and> hb_resolve_overflows sample_memory (map Some bias_graph) roomy_sink = Some (Inl OffsetUnderflow)
   \<and> graph_t_new (map Some huge_graph) = Inr \<lparr>objects = huge_graph\<rparr>
   \<and> well_formed huge_graph \<and> acyclic (edges huge_graph) \<and> root_connected huge_graph
   \<and> \<not> payload_bounded huge_graph
   \<and> sort_kahn \<lparr>objects = huge_graph\<rparr> = Some (Inr \<lparr>objects = huge_graph\<rparr>)
   \<and> will_overflow \<lparr>objects = huge_graph\<rparr> = Inr (True, \<lparr>objects = huge_graph\<rparr>)
   \<and> sort_shortest_distance \<lparr>objects = huge_graph\<rparr> = Some (Inl GraphStructureError)
   \<and> hb_resolve_overflows sample_memory (map Some huge_graph) roomy_sink
       = Some (Inl GraphStructureError)"
proof -
  let ?g = "\<lparr>objects = truncation_graph\<rparr>"
  let ?h = "\<lparr>objects = overflow_graph\<rparr>"
  let ?h3 = "\<lparr>objects = [obj 4 80004 [], obj 0 4 [], obj 80004 80008 [link_to 0, link_to 1]]\<rparr>"
  let ?b = "\<lparr>objects = bias_graph\<rparr>"
  let ?u = "\<lparr>objects = huge_graph\<rparr>"
  have g0: "graph_t_new (map Some truncation_graph) = Inr ?g" by (rule graph_t_new_some)
  have gk: "sort_kahn ?g = Some (Inr ?g)" by code_simp
  have gw: "will_overflow ?g = Inr (False, ?g)" by code_simp
  from hb_resolve_overflows_strategy[OF g0, of sample_memory roomy_sink] truncation_graph_facts
  obtain g1 where g1: "sort_kahn ?g = Some (Inr g1)"
    "will_overflow g1 = Inr (False, g1) \<longrightarrow>
       hb_resolve_overflows sample_memory (map Some truncation_graph) roomy_sink
         = Some (Inr (serialize sample_memory g1 roomy_sink))"
    by auto
  have "g1 = ?g" using g1(1) gk by simp
  then have G: "hb_resolve_overflows sample_memory (map Some truncation_graph) roomy_sink
         = Some (Inr (serialize sample_memory ?g roomy_sink))"
    using g1(2) gw by simp
  have Ge: "ended (serialize sample_memory ?g roomy_sink)"
    using serialize_complete[of ?g roomy_sink sample_memory] payload_facts(4) by simp
  have h0: "graph_t_new (map Some overflow_graph) = Inr ?h" by (rule graph_t_new_some)
  have hk: "sort_kahn ?h = Some (Inr ?h)" by code_simp
  have hw: "will_overflow ?h = Inr (True, ?h)" by code_simp
  have hd: "sort_shortest_distance ?h = Some (Inr ?h3)" by code_simp
  from hb_resolve_overflows_strategy[OF h0, of sample_memory roomy_sink] overflow_graph_facts
  obtain h1 where h1: "sort_kahn ?h = Some (Inr h1)"
    "will_overflow h1 = Inr (True, h1) \<longrightarrow>
       (\<exists>g3. sort_shortest_distance h1 = Some (Inr g3)
          \<and> hb_resolve_overflows sample_memory (map Some overflow_graph) roomy_sink
               = Some (Inr (serialize sample_memory g3 roomy_sink)))
       \<or> (\<not> payload_bounded (objects ?h)
           \<and> sort_shortest_distance h1 = Some (Inl GraphStructureError)
           \<and> hb_resolve_overflows sample_memory (map Some overflow_graph) roomy_sink
                = Some (Inl GraphStructureError))"
    by auto
  have "h1 = ?h" using h1(1) hk by simp
  then have H: "hb_resolve_overflows sample_memory (map Some overflow_graph) roomy_sink
         = Some (Inr (serialize sample_memory ?h3 roomy_sink))"
    using h1(2) hw hd payload_facts(2) by auto
  have He: "ended (serialize sample_memory ?h3 roomy_sink)"
    using serialize_complete[of ?h3 roomy_sink sample_memory] payload_facts(5) by simp
  have b0: "graph_t_new (map Some bias_graph) = Inr ?b" by (rule graph_t_new_some)
  have bk: "sort_kahn ?b = Some (Inr ?b)" by code_simp
  have bw: "will_overflow ?b = Inl OffsetUnderflow" by code_simp
  from hb_resolve_overflows_strategy[OF b0, of sample_memory roomy_sink] bias_graph_facts
  obtain b1 where b1: "sort_kahn ?b = Some (Inr b1)"
    "will_overflow b1 = Inl OffsetUnderflow \<longrightarrow>
       hb_resolve_overflows sample_memory (map Some bias_graph) roomy_sink = Some (Inl OffsetUnderflow)"
    by auto
  have "b1 = ?b" using b1(1) bk by simp
  then have B: "hb_resolve_overflows sample_memory (map Some bias_graph) roomy_sink
                  = Some (Inl OffsetUnderflow)"
    using b1(2) bw by simp
  have u0: "graph_t_new (map Some huge_graph) = Inr ?u" by (rule graph_t_new_some)
  have uk: "sort_kahn ?u = Some (Inr ?u)" by code_simp
  have uw: "will_overflow ?u = Inr (True, ?u)" by code_simp
  have ud: "sort_shortest_distance ?u = Some (Inl GraphStructureError)" by code_simp
  from hb_resolve_overflows_strategy[OF u0, of sample_memory roomy_sink] huge_graph_facts
  obtain u1 where u1: "sort_kahn ?u = Some (Inr u1)"
    "will_overflow u1 = Inr (True, u1) \<longrightarrow>
       (\<exists>g3. sort_shortest_distance u1 = Some (Inr g3)
          \<and> hb_resolve_overflows sample_memory (map Some huge_graph) roomy_sink
               = Some (Inr (serialize sample_memory g3 roomy_sink)))
       \<or> (\<not> payload_bounded (objects ?u)
           \<and> sort_shortest_distance u1 = Some (Inl GraphStructureError)
           \<and> hb_resolve_overflows sample_memory (map Some huge_graph) roomy_sink
                = Some (Inl GraphStructureError))"
    by auto
  have "u1 = ?u" using u1(1) uk by simp
  then have U: "hb_resolve_overflows sample_memory (map Some huge_graph) roomy_sink
                  = Some (Inl GraphStructureError)"
    using u1(2) uw ud by auto
  show ?thesis
    using g0 gk gw G Ge h0 hk hw hd H He b0 bk bw B u0 uk uw ud U
      truncation_graph_facts overflow_graph_facts bias_graph_facts huge_graph_facts
      payload_facts(2,3)
    by simp
qed

text \<open>
  Counterexample to C1 as stated: \<open>bias_graph\<close> and \<open>huge_graph\<close> are well
  formed, acyclic and root-connected. On the first the oracle fails with
  \<open>OffsetUnderflow\<close> because the bias 9 of the only link exceeds its offset 8. On
  the second the oracle reports an overflow, and the distance sort fails with
  \<open>GraphStructureError\<close> because the weight of the object of \<open>2^63 - 65537\<close>
  bytes is \<^verbatim>\<open>INT64_MAX\<close>, so that its distance is never set. Neither run re-emits
  anything.
\<close>

theorem hb_resolve_overflows_counterexample:
  "well_formed bias_graph \<and> acyclic (edges bias_graph) \<and> root_connected bias_graph
   \<and> hb_resolve_overflows sample_memory (map Some bias_graph) roomy_sink = Some (Inl OffsetUnderflow)
   \<and> well_formed huge_graph \<and> acyclic (edges huge_graph) \<and> root_connected huge_graph
   \<and> will_overflow \<lparr>objects = huge_graph\<rparr> = Inr (True, \<lparr>objects = huge_graph\<rparr>)
   \<and> hb_resolve_overflows sample_memory (map Some huge_graph) roomy_sink = Some (Inl GraphStructureError)"
proof -
  have b0: "graph_t_new (map Some bias_graph) = Inr \<lparr>objects = bias_graph\<rparr>" by (rule graph_t_new_some)
  have bk: "sort_kahn \<lparr>objects = bias_graph\<rparr> = Some (Inr \<lparr>objects = bias_graph\<rparr>)" by code_simp
  have bw: "will_overflow \<lparr>objects = bias_graph\<rparr> = Inl OffsetUnderflow" by code_simp
  have B: "hb_resolve_overflows sample_memory (map Some bias_graph) roomy_sink = Some (Inl OffsetUnderflow)"
    by (simp add: hb_resolve_overflows_def b0 bk bw)
  have h0: "graph_t_new (map Some huge_graph) = Inr \<lparr>objects = huge_graph\<rparr>" by (rule graph_t_new_some)
  have hk: "sort_kahn \<lparr>objects = huge_graph\<rparr> = Some (Inr \<lparr>objects = huge_graph\<rparr>)" by code_simp
  have hw: "will_overflow \<lparr>objects = huge_graph\<rparr> = Inr (True, \<lparr>objects = huge_graph\<rparr>)" by code_simp
  have hd: "sort_shortest_distance \<lparr>objects = huge_graph\<rparr> = Some (Inl GraphStructureError)" by code_simp
  have H: "hb_resolve_overflows sample_memory (map Some huge_graph) roomy_sink
                   = Some (Inl GraphStructureError)"
    by (simp add: hb_resolve_overflows_def h0 hk hw hd)
  show ?thesis using B hw H bias_graph_facts huge_graph_facts by simp
qed

end
